theory Spec2Isabelle
  imports Complex_Main "HOL-Library.AList"
begin

section \<open>Python strings\<close>

text \<open>
  A Python \<open>str\<close> is modelled as a \<open>string\<close>: the list of its code points, restricted to
  the code points below 256. The file \<open>app.py\<close> uses the following methods of \<open>str\<close>.
\<close>

definition startswith :: "string \<Rightarrow> string \<Rightarrow> bool" where
  \<comment> \<open>\<open>s.startswith(p)\<close>\<close>
  "startswith s p = (take (length p) s = p)"

definition startswith_any :: "string \<Rightarrow> string list \<Rightarrow> bool" where
  \<comment> \<open>\<open>s.startswith((p1, p2, ...))\<close>: a tuple of prefixes\<close>
  "startswith_any s ps = list_ex (startswith s) ps"

definition endswith :: "string \<Rightarrow> string \<Rightarrow> bool" where
  \<comment> \<open>\<open>s.endswith(p)\<close>\<close>
  "endswith s p = (length p \<le> length s \<and> drop (length s - length p) s = p)"

fun contains :: "string \<Rightarrow> string \<Rightarrow> bool" where
  \<comment> \<open>\<open>sub in s\<close>: \<open>sub\<close> occurs in \<open>s\<close> as a contiguous run\<close>
  "contains sub [] = (sub = [])"
| "contains sub (c # cs) = (startswith (c # cs) sub \<or> contains sub cs)"

definition replace_chr :: "char \<Rightarrow> char \<Rightarrow> string \<Rightarrow> string" where
  \<comment> \<open>\<open>s.replace(a, b)\<close> for one-character strings \<open>a\<close> and \<open>b\<close>\<close>
  "replace_chr a b s = map (\<lambda>c. if c = a then b else c) s"

fun split_chr :: "char \<Rightarrow> string \<Rightarrow> string list" where
  \<comment> \<open>\<open>s.split(sep)\<close> for a one-character separator: empty pieces are kept\<close>
  "split_chr sep [] = [[]]"
| "split_chr sep (c # cs) =
     (if c = sep then [] # split_chr sep cs
      else (case split_chr sep cs of
              [] \<Rightarrow> [[c]]
            | w # ws \<Rightarrow> (c # w) # ws))"

definition isspace :: "char \<Rightarrow> bool" where
  \<comment> \<open>\<open>c.isspace()\<close> on the code points below 256\<close>
  "isspace c =
     (let n = (of_char c :: nat)
      in (9 \<le> n \<and> n \<le> 13) \<or> (28 \<le> n \<and> n \<le> 32) \<or> n = 133 \<or> n = 160)"

definition strip :: "string \<Rightarrow> string" where
  \<comment> \<open>\<open>s.strip()\<close>\<close>
  "strip s = rev (dropWhile isspace (rev (dropWhile isspace s)))"

fun join :: "string \<Rightarrow> string list \<Rightarrow> string" where
  \<comment> \<open>\<open>sep.join(xs)\<close>\<close>
  "join sep [] = []"
| "join sep [x] = x"
| "join sep (x # y # ys) = x @ sep @ join sep (y # ys)"

definition lower_chr :: "char \<Rightarrow> char" where
  "lower_chr c =
     (let n = (of_char c :: nat)
      in if (65 \<le> n \<and> n \<le> 90) \<or> (192 \<le> n \<and> n \<le> 214) \<or> (216 \<le> n \<and> n \<le> 222)
         then char_of (n + 32) else c)"

definition lower :: "string \<Rightarrow> string" where
  \<comment> \<open>\<open>s.lower()\<close> on the code points below 256\<close>
  "lower s = map lower_chr s"


section \<open>Errors\<close>

text \<open>
  An exception is a value: its class and the message that \<open>str(e)\<close> gives. All of them are
  subclasses of \<open>Exception\<close>, so the handler's \<open>except Exception\<close> catches each one.
\<close>

datatype error =
    Exception string
  | ValueError string
  | TypeError string
  | AttributeError string
  | OSError string
  | UnicodeError string
  | ClientError string

fun str_of :: "error \<Rightarrow> string" where
  "str_of (Exception m) = m"
| "str_of (ValueError m) = m"
| "str_of (TypeError m) = m"
| "str_of (AttributeError m) = m"
| "str_of (OSError m) = m"
| "str_of (UnicodeError m) = m"
| "str_of (ClientError m) = m"


section \<open>The parsed document\<close>

text \<open>
  BeautifulSoup's tree: a tag has a name, a dictionary of attributes (in insertion order) and
  a list of children; every other node (text, comment, doctype) is a \<open>NavString\<close>. The
  value of an attribute is a \<open>str\<close>, or a list of strings for the attributes that the
  library splits at whitespace (\<open>rel\<close>, \<open>class\<close>, ...).
\<close>

datatype attrval = Str string | Multi "string list"

type_synonym attrs = "(string \<times> attrval) list"

datatype node =
    Tag (tag_name: string) (tag_attrs: attrs) (tag_contents: "node list")
  | NavString string

type_synonym soup = "node list"

type_synonym path = "nat list"


section \<open>The environment\<close>

text \<open>
  A file-system entry of the cache tree; paths are keys, compared as strings.
\<close>

datatype entry = File (data: string) (mtime: real) | Dir (mtime: real)

type_synonym fs = "string \<rightharpoonup> entry"

text \<open>The two fields of \<open>urlparse(url)\<close> that the program reads.\<close>

record parsed =
  netloc :: string
  url_path :: string

text \<open>
  What \<open>session.get\<close> gives for a URL: the request fails, or a response arrives with its
  status, its \<open>content-type\<close> header (if any) and the outcome of \<open>response.read()\<close> and of
  \<open>response.text()\<close>.
\<close>

datatype upstream =
    Unreachable error
  | Reply (status: int) (ctype_header: "string option")
      (read_body: "error + string") (text_body: "error + string")

text \<open>
  The library functions that \<open>app.py\<close> imports, the cache directory, the network and the
  clock are parameters of the model. One request reads one clock value.
\<close>

record env =
  CACHE_DIR :: string
  urlparse :: "string \<Rightarrow> error + parsed"
  urljoin :: "string \<Rightarrow> string \<Rightarrow> error + string"
  guess_extension :: "string \<Rightarrow> string option"
  parse_html :: "string \<Rightarrow> error + soup"
  serialize_html :: "soup \<Rightarrow> string"
  decode_utf8 :: "string \<Rightarrow> string"
  encode_utf8 :: "string \<Rightarrow> error + string"
  session_get :: "string \<Rightarrow> upstream"
  time_now :: real


section \<open>Constants of the module\<close>

definition PREFIX :: string where
  "PREFIX = ''/cachingproxy''"

definition ALLOW_URLS :: "string list" where
  "ALLOW_URLS = [''http://example.com'', ''https://adventofcode.com'']"

definition ONE_MINUTE_IN_SECONDS :: real where
  "ONE_MINUTE_IN_SECONDS = 60"

definition ONE_HOUR_IN_SECONDS :: real where
  "ONE_HOUR_IN_SECONDS = 60 * ONE_MINUTE_IN_SECONDS"

definition ONE_DAY_IN_SECONDS :: real where
  "ONE_DAY_IN_SECONDS = 24 * ONE_HOUR_IN_SECONDS"

definition ONE_YEAR_IN_SECONDS :: real where
  "ONE_YEAR_IN_SECONDS = 365 * ONE_DAY_IN_SECONDS"

definition DEFAULT_CACHE_EXPIRY :: real where
  "DEFAULT_CACHE_EXPIRY = ONE_YEAR_IN_SECONDS"


section \<open>The allowlist loop of \<open>proxy_full_async\<close>\<close>

text \<open>
  \<^verbatim>\<open>
  allowed = True
  for allowed_url in ALLOW_URLS:
      allowed = False
      if url.startswith(allowed_url):
          allowed = True
          break
  \<close>
  The loop is a recursion on the rest of the list, with the current value of \<open>allowed\<close>.
\<close>

fun allow_loop :: "string \<Rightarrow> string list \<Rightarrow> bool \<Rightarrow> bool" where
  "allow_loop url [] allowed = allowed"
| "allow_loop url (allowed_url # rest) allowed =
     (if startswith url allowed_url then True else allow_loop url rest False)"

definition is_allowed :: "string \<Rightarrow> string list \<Rightarrow> bool" where
  "is_allowed url allow_urls = allow_loop url allow_urls True"


section \<open>\<open>urllib.parse.quote\<close>\<close>

text \<open>
  \<open>quote(s)\<close> with the default \<open>safe='/'\<close>: the string is encoded in UTF-8, and every byte
  that is not a letter, a digit, one of \<open>_.-~\<close> or \<open>/\<close> becomes \<open>%XX\<close> in upper-case hex.
\<close>

definition always_safe :: "char \<Rightarrow> bool" where
  "always_safe c =
     (c \<in> set (''ABCDEFGHIJKLMNOPQRSTUVWXYZ'' @ ''abcdefghijklmnopqrstuvwxyz''
               @ ''0123456789'' @ ''_.-~''))"

definition utf8_bytes :: "char \<Rightarrow> nat list" where
  "utf8_bytes c =
     (let n = (of_char c :: nat)
      in if n < 128 then [n] else [192 + n div 64, 128 + n mod 64])"

definition hex_digit :: "nat \<Rightarrow> char" where
  "hex_digit k = ''0123456789ABCDEF'' ! (k mod 16)"

definition percent :: "nat \<Rightarrow> string" where
  "percent b = [CHR ''%'', hex_digit (b div 16), hex_digit b]"

definition quote_chr :: "char \<Rightarrow> string" where
  "quote_chr c =
     (if always_safe c \<or> c = CHR ''/'' then [c] else concat (map percent (utf8_bytes c)))"

definition quote :: "string \<Rightarrow> string" where
  "quote s = concat (map quote_chr s)"


section \<open>\<open>rewrite_url\<close>\<close>

definition rewrite_url :: "env \<Rightarrow> string \<Rightarrow> string \<Rightarrow> error + string" where
  "rewrite_url env url base_url =
     (if url = [] then Inr url
      else if startswith_any url [''javascript:'', ''data:'', ''#'', ''mailto:''] then Inr url
      else if \<not> startswith_any url [''http://'', ''https://''] then
        (case urljoin env base_url url of
           Inl e \<Rightarrow> Inl e
         | Inr absolute \<Rightarrow> Inr (PREFIX @ ''/proxy?url='' @ quote absolute))
      else Inr (PREFIX @ ''/proxy?url='' @ quote url))"


section \<open>\<open>rewrite_html\<close>\<close>

subsection \<open>Attribute dictionaries\<close>

fun map_err :: "('a \<Rightarrow> error + 'b) \<Rightarrow> 'a list \<Rightarrow> error + 'b list" where
  \<comment> \<open>a loop that builds a list and stops at the first exception\<close>
  "map_err f [] = Inr []"
| "map_err f (x # xs) =
     (case f x of
        Inl e \<Rightarrow> Inl e
      | Inr y \<Rightarrow> (case map_err f xs of Inl e \<Rightarrow> Inl e | Inr ys \<Rightarrow> Inr (y # ys)))"

definition rewrite_val :: "env \<Rightarrow> string \<Rightarrow> attrval \<Rightarrow> error + attrval" where
  \<comment> \<open>\<open>rewrite_url(v, base_url)\<close> on an attribute value; a non-empty list has no
      \<open>startswith\<close>\<close>
  "rewrite_val env base_url v =
     (case v of
        Str s \<Rightarrow> (case rewrite_url env s base_url of Inl e \<Rightarrow> Inl e | Inr s' \<Rightarrow> Inr (Str s'))
      | Multi vs \<Rightarrow>
          if vs = [] then Inr (Multi [])
          else Inl (AttributeError ''list object has no attribute startswith''))"

definition rewrite_attr :: "env \<Rightarrow> string \<Rightarrow> string \<Rightarrow> attrs \<Rightarrow> error + attrs" where
  \<comment> \<open>\<open>tag[k] = rewrite_url(tag[k], base_url)\<close>\<close>
  "rewrite_attr env base_url k as =
     (case map_of as k of
        None \<Rightarrow> Inl (Exception k)
      | Some v \<Rightarrow>
          (case rewrite_val env base_url v of
             Inl e \<Rightarrow> Inl e
           | Inr v' \<Rightarrow> Inr (AList.update k v' as)))"

subsection \<open>The \<open>srcset\<close> loop\<close>

text \<open>
  \<^verbatim>\<open>
  for srcset in img["srcset"].split(","):
      parts = srcset.strip().split(" ")
      if len(parts) >= 1:
          parts[0] = rewrite_url(parts[0], base_url)
      srcsets.append(" ".join(parts))
  img["srcset"] = ", ".join(srcsets)
  \<close>
\<close>

definition rewrite_candidate :: "env \<Rightarrow> string \<Rightarrow> string \<Rightarrow> error + string" where
  "rewrite_candidate env base_url srcset =
     (case split_chr CHR '' '' (strip srcset) of
        [] \<Rightarrow> Inr (join '' '' [])
      | p # ps \<Rightarrow>
          (case rewrite_url env p base_url of
             Inl e \<Rightarrow> Inl e
           | Inr p' \<Rightarrow> Inr (join '' '' (p' # ps))))"

definition rewrite_srcset :: "env \<Rightarrow> string \<Rightarrow> string \<Rightarrow> error + string" where
  "rewrite_srcset env base_url v =
     (case map_err (rewrite_candidate env base_url) (split_chr CHR '','' v) of
        Inl e \<Rightarrow> Inl e
      | Inr srcsets \<Rightarrow> Inr (join '', '' srcsets))"

subsection \<open>The five loops over \<open>find_all\<close>\<close>

text \<open>
  \<open>soup.find_all(name, k=True)\<close> lists the tags of that name that have the attribute \<open>k\<close>, in
  document order (a tag before its descendants). The body of each loop writes only the
  attributes of its own tag, so a loop is one traversal of the tree in that order, which
  stops at the first exception.
\<close>

fun map_tags :: "(string \<Rightarrow> attrs \<Rightarrow> error + attrs) \<Rightarrow> node \<Rightarrow> error + node"
  and map_tags_list :: "(string \<Rightarrow> attrs \<Rightarrow> error + attrs) \<Rightarrow> node list \<Rightarrow> error + node list"
where
  "map_tags f (NavString s) = Inr (NavString s)"
| "map_tags f (Tag n as cs) =
     (case f n as of
        Inl e \<Rightarrow> Inl e
      | Inr as' \<Rightarrow>
          (case map_tags_list f cs of
             Inl e \<Rightarrow> Inl e
           | Inr cs' \<Rightarrow> Inr (Tag n as' cs')))"
| "map_tags_list f [] = Inr []"
| "map_tags_list f (x # xs) =
     (case map_tags f x of
        Inl e \<Rightarrow> Inl e
      | Inr x' \<Rightarrow>
          (case map_tags_list f xs of
             Inl e \<Rightarrow> Inl e
           | Inr xs' \<Rightarrow> Inr (x' # xs')))"

definition a_body :: "env \<Rightarrow> string \<Rightarrow> string \<Rightarrow> attrs \<Rightarrow> error + attrs" where
  "a_body env base_url n as =
     (if n = ''a'' \<and> map_of as ''href'' \<noteq> None then rewrite_attr env base_url ''href'' as
      else Inr as)"

definition img_body :: "env \<Rightarrow> string \<Rightarrow> string \<Rightarrow> attrs \<Rightarrow> error + attrs" where
  "img_body env base_url n as =
     (if n = ''img'' \<and> map_of as ''src'' \<noteq> None then
        (case rewrite_attr env base_url ''src'' as of
           Inl e \<Rightarrow> Inl e
         | Inr as1 \<Rightarrow>
             (case map_of as1 ''srcset'' of
                None \<Rightarrow> Inr as1
              | Some (Str v) \<Rightarrow>
                  if v = [] then Inr as1
                  else (case rewrite_srcset env base_url v of
                          Inl e \<Rightarrow> Inl e
                        | Inr v' \<Rightarrow> Inr (AList.update ''srcset'' (Str v') as1))
              | Some (Multi vs) \<Rightarrow>
                  if vs = [] then Inr as1
                  else Inl (AttributeError ''list object has no attribute split'')))
      else Inr as)"

definition rel_has_stylesheet :: "attrval option \<Rightarrow> bool" where
  \<comment> \<open>\<open>link.get("rel") and "stylesheet" in link.get("rel")\<close>\<close>
  "rel_has_stylesheet r =
     (case r of
        None \<Rightarrow> False
      | Some (Multi vs) \<Rightarrow> vs \<noteq> [] \<and> ''stylesheet'' \<in> set vs
      | Some (Str s) \<Rightarrow> s \<noteq> [] \<and> contains ''stylesheet'' s)"

definition link_body :: "env \<Rightarrow> string \<Rightarrow> string \<Rightarrow> attrs \<Rightarrow> error + attrs" where
  "link_body env base_url n as =
     (if n = ''link'' \<and> map_of as ''href'' \<noteq> None then
        (if rel_has_stylesheet (map_of as ''rel'') then rewrite_attr env base_url ''href'' as
         else Inr as)
      else Inr as)"

definition script_body :: "env \<Rightarrow> string \<Rightarrow> string \<Rightarrow> attrs \<Rightarrow> error + attrs" where
  "script_body env base_url n as =
     (if n = ''script'' \<and> map_of as ''src'' \<noteq> None then rewrite_attr env base_url ''src'' as
      else Inr as)"

definition form_body :: "env \<Rightarrow> string \<Rightarrow> string \<Rightarrow> attrs \<Rightarrow> error + attrs" where
  "form_body env base_url n as =
     (if n = ''form'' \<and> map_of as ''action'' \<noteq> None
      then rewrite_attr env base_url ''action'' as
      else Inr as)"

definition rewrite_links :: "env \<Rightarrow> string \<Rightarrow> soup \<Rightarrow> error + soup" where
  "rewrite_links env base_url soup =
     (case map_tags_list (a_body env base_url) soup of Inl e \<Rightarrow> Inl e | Inr s1 \<Rightarrow>
     (case map_tags_list (img_body env base_url) s1 of Inl e \<Rightarrow> Inl e | Inr s2 \<Rightarrow>
     (case map_tags_list (link_body env base_url) s2 of Inl e \<Rightarrow> Inl e | Inr s3 \<Rightarrow>
     (case map_tags_list (script_body env base_url) s3 of Inl e \<Rightarrow> Inl e | Inr s4 \<Rightarrow>
      map_tags_list (form_body env base_url) s4))))"

subsection \<open>\<open>soup.find\<close> and the tags it returns\<close>

text \<open>
  \<open>soup.find(...)\<close> returns the first matching tag in document order, or \<open>None\<close>. A tag is
  an object of the tree, so the model returns its position: the indices of the children to
  follow from the root.
\<close>

fun bump :: "path \<Rightarrow> path" where
  "bump [] = []"
| "bump (i # p) = Suc i # p"

fun find_node :: "(node \<Rightarrow> bool) \<Rightarrow> node \<Rightarrow> path option"
  and find_nodes :: "(node \<Rightarrow> bool) \<Rightarrow> node list \<Rightarrow> path option"
where
  "find_node P (NavString s) = None"
| "find_node P (Tag n as cs) = (if P (Tag n as cs) then Some [] else find_nodes P cs)"
| "find_nodes P [] = None"
| "find_nodes P (x # xs) =
     (case find_node P x of
        Some p \<Rightarrow> Some (0 # p)
      | None \<Rightarrow> map_option bump (find_nodes P xs))"

fun modify_node :: "path \<Rightarrow> (node \<Rightarrow> node) \<Rightarrow> node \<Rightarrow> node"
  and modify_at :: "path \<Rightarrow> (node \<Rightarrow> node) \<Rightarrow> node list \<Rightarrow> node list"
where
  "modify_node [] f x = f x"
| "modify_node (i # p) f (Tag n as cs) = Tag n as (modify_at (i # p) f cs)"
| "modify_node (i # p) f (NavString s) = NavString s"
| "modify_at [] f xs = xs"
| "modify_at (i # p) f [] = []"
| "modify_at (0 # p) f (x # xs) = modify_node p f x # xs"
| "modify_at (Suc i # p) f (x # xs) = x # modify_at (i # p) f xs"

definition is_tag :: "string \<Rightarrow> node \<Rightarrow> bool" where
  \<comment> \<open>\<open>find(name)\<close>\<close>
  "is_tag name x = (case x of Tag n as cs \<Rightarrow> n = name | NavString s \<Rightarrow> False)"

definition attr_matches :: "attrval option \<Rightarrow> string \<Rightarrow> bool" where
  \<comment> \<open>the library's match of an attribute value against a string: a list matches when one
      of its items is the string, or when the items joined by a space are\<close>
  "attr_matches a v =
     (case a of
        None \<Rightarrow> v = []
      | Some (Str s) \<Rightarrow> s = v
      | Some (Multi vs) \<Rightarrow> list_ex (\<lambda>s. s = v) vs \<or> join '' '' vs = v)"

definition is_link_rel :: "string \<Rightarrow> node \<Rightarrow> bool" where
  \<comment> \<open>\<open>find("link", attrs={"rel": v})\<close>\<close>
  "is_link_rel v x =
     (case x of
        Tag n as cs \<Rightarrow> n = ''link'' \<and> attr_matches (map_of as ''rel'') v
      | NavString s \<Rightarrow> False)"

definition set_item :: "string \<Rightarrow> attrval \<Rightarrow> node \<Rightarrow> node" where
  \<comment> \<open>\<open>tag[k] = v\<close>\<close>
  "set_item k v x =
     (case x of Tag n as cs \<Rightarrow> Tag n (AList.update k v as) cs | NavString s \<Rightarrow> NavString s)"

definition insert_first :: "node \<Rightarrow> node \<Rightarrow> node" where
  \<comment> \<open>\<open>tag.insert(0, child)\<close>\<close>
  "insert_first child x =
     (case x of Tag n as cs \<Rightarrow> Tag n as (child # cs) | NavString s \<Rightarrow> NavString s)"

definition append_child :: "node \<Rightarrow> node \<Rightarrow> node" where
  \<comment> \<open>\<open>tag.append(child)\<close>\<close>
  "append_child child x =
     (case x of Tag n as cs \<Rightarrow> Tag n as (cs @ [child]) | NavString s \<Rightarrow> NavString s)"

subsection \<open>The base tag, the viewport tag and the stylesheets\<close>

definition new_base_tag :: node where
  \<comment> \<open>\<open>soup.new_tag("base")\<close> after \<open>base_tag["target"] = "_self"\<close>\<close>
  "new_base_tag = Tag ''base'' [(''target'', Str ''_self'')] []"

definition meta_tag :: node where
  "meta_tag =
     Tag ''meta''
       [(''name'', Str ''viewport''),
        (''content'', Str ''width=device-width, initial-scale=1.0'')] []"

definition set_base_target :: "soup \<Rightarrow> soup" where
  \<comment> \<open>lines 158 and 159, when \<open>soup.find("base")\<close> is a tag of the tree\<close>
  "set_base_target soup =
     (case find_nodes (is_tag ''base'') soup of
        None \<Rightarrow> soup
      | Some p \<Rightarrow> modify_at p (set_item ''target'' (Str ''_self'')) soup)"

definition swap_stylesheets :: "soup \<Rightarrow> error + soup" where
  \<comment> \<open>lines 163 to 171; \<open>stylesheet\<close> and \<open>stylesheet2\<close> may be the same tag\<close>
  "swap_stylesheets soup =
     (case find_nodes (is_link_rel ''stylesheet alternate'') soup of
        None \<Rightarrow> Inr soup
      | Some stylesheet2 \<Rightarrow>
          (case find_nodes (is_link_rel ''stylesheet'') soup of
             None \<Rightarrow> Inl (TypeError ''NoneType object does not support item assignment'')
           | Some stylesheet \<Rightarrow>
               Inr (modify_at stylesheet2 (set_item ''rel'' (Str ''stylesheet''))
                     (modify_at stylesheet (set_item ''rel'' (Str ''ONZIN'')) soup))))"

definition insert_base :: "soup \<Rightarrow> soup" where
  \<comment> \<open>lines 172 to 179. No base tag is found here, so none was found at line 158 and
      \<open>base_tag\<close> is the new tag.\<close>
  "insert_base soup =
     (if find_nodes (is_tag ''base'') soup = None then
        (case find_nodes (is_tag ''head'') soup of
           Some head \<Rightarrow>
             modify_at head (\<lambda>h. append_child meta_tag (insert_first new_base_tag h)) soup
         | None \<Rightarrow>
             (case find_nodes (is_tag ''html'') soup of
                Some html \<Rightarrow>
                  modify_at html (insert_first (Tag ''head'' [] [new_base_tag])) soup
              | None \<Rightarrow> soup))
      else soup)"

definition rewrite_soup :: "env \<Rightarrow> string \<Rightarrow> soup \<Rightarrow> error + soup" where
  "rewrite_soup env base_url soup =
     (case rewrite_links env base_url soup of
        Inl e \<Rightarrow> Inl e
      | Inr s1 \<Rightarrow>
          (case swap_stylesheets (set_base_target s1) of
             Inl e \<Rightarrow> Inl e
           | Inr s2 \<Rightarrow> Inr (insert_base s2)))"

definition rewrite_html :: "env \<Rightarrow> string option \<Rightarrow> string \<Rightarrow> error + string" where
  "rewrite_html env html_content base_url =
     (case html_content of
        None \<Rightarrow> Inr []
      | Some html \<Rightarrow>
          if html = [] then Inr []
          else (case parse_html env html of
                  Inl e \<Rightarrow> Inl e
                | Inr soup \<Rightarrow>
                    (case rewrite_soup env base_url soup of
                       Inl e \<Rightarrow> Inl e
                     | Inr soup' \<Rightarrow> Inr (serialize_html env soup'))))"


section \<open>The cache\<close>

subsection \<open>\<open>os.path\<close>\<close>

definition path_join :: "string \<Rightarrow> string \<Rightarrow> string" where
  \<comment> \<open>\<open>os.path.join(a, b)\<close>; with three arguments, \<open>join(join(a, b), c)\<close>\<close>
  "path_join a b =
     (if startswith b ''/'' then b
      else if a = [] \<or> endswith a ''/'' then a @ b
      else a @ ''/'' @ b)"

definition splitext_ext :: "string \<Rightarrow> string" where
  \<comment> \<open>\<open>os.path.splitext(p)[1]\<close>: the last component of the path from its last dot on, or
      the empty string when that component has no dot or nothing but dots before it\<close>
  "splitext_ext p =
     (let component = takeWhile (\<lambda>c. c \<noteq> CHR ''/'') (rev p);
          after_dot = takeWhile (\<lambda>c. c \<noteq> CHR ''.'') component;
          before_dot = drop (Suc (length after_dot)) component
      in if CHR ''.'' \<in> set component \<and> list_ex (\<lambda>c. c \<noteq> CHR ''.'') before_dot
         then CHR ''.'' # rev after_dot else [])"

definition mkdir_exist_ok :: "env \<Rightarrow> fs \<Rightarrow> string \<Rightarrow> error + fs" where
  \<comment> \<open>\<open>pathlib.Path(p).mkdir(exist_ok=True)\<close>\<close>
  "mkdir_exist_ok env fs p =
     (case fs p of
        None \<Rightarrow> Inr (fs(p \<mapsto> Dir (time_now env)))
      | Some (Dir t) \<Rightarrow> Inr fs
      | Some (File d t) \<Rightarrow> Inl (OSError ''File exists''))"

subsection \<open>\<open>encode_url\<close>, \<open>get_cache_path\<close>, \<open>is_cached\<close>\<close>

definition encode_url :: "string \<Rightarrow> string" where
  "encode_url url = replace_chr CHR '':'' CHR ''#'' (replace_chr CHR ''/'' CHR ''$'' url)"

definition cache_ext :: "env \<Rightarrow> parsed \<Rightarrow> string option \<Rightarrow> string" where
  \<comment> \<open>lines 54 to 61\<close>
  "cache_ext env p content_type =
     (case content_type of
        None \<Rightarrow> ''.html''
      | Some ct \<Rightarrow>
          if ct \<noteq> [] \<and> contains ''image'' ct then
            (let ext = (case guess_extension env ct of
                          None \<Rightarrow> splitext_ext (url_path p)
                        | Some g \<Rightarrow> if g \<noteq> [] then g else splitext_ext (url_path p))
             in if ext = [] then ''.bin'' else ext)
          else ''.html'')"

text \<open>
  The MD5 digest of line 50 is overwritten at line 52 and is not modelled. The function
  returns the path and the file system after \<open>mkdir\<close>.
\<close>

definition get_cache_path :: "env \<Rightarrow> fs \<Rightarrow> string \<Rightarrow> string option \<Rightarrow> error + string \<times> fs" where
  "get_cache_path env fs url content_type =
     (case urlparse env url of
        Inl e \<Rightarrow> Inl e
      | Inr p \<Rightarrow>
          (let url_hash = encode_url url;
               ext = cache_ext env p content_type;
               fpath = path_join (path_join (CACHE_DIR env) (netloc p)) (url_hash @ ext)
           in case mkdir_exist_ok env fs (path_join (CACHE_DIR env) (netloc p)) of
                Inl e \<Rightarrow> Inl e
              | Inr fs' \<Rightarrow> Inr (fpath, fs')))"

definition is_cached :: "env \<Rightarrow> fs \<Rightarrow> string \<Rightarrow> real \<Rightarrow> error + bool \<times> fs" where
  "is_cached env fs url max_age =
     (case get_cache_path env fs url None of
        Inl e \<Rightarrow> Inl e
      | Inr (cache_path, fs') \<Rightarrow>
          (case fs' cache_path of
             None \<Rightarrow> Inr (False, fs')
           | Some f \<Rightarrow>
               if time_now env - mtime f < max_age then Inr (True, fs')
               else Inr (False, fs')))"

subsection \<open>\<open>read_cache\<close> and \<open>write_cache\<close>\<close>

definition read_cache :: "env \<Rightarrow> fs \<Rightarrow> string \<Rightarrow> bool \<Rightarrow> error + string" where
  "read_cache env fs cache_path binary =
     (case fs cache_path of
        None \<Rightarrow> Inl (OSError ''No such file or directory'')
      | Some (Dir t) \<Rightarrow> Inl (OSError ''Is a directory'')
      | Some (File d t) \<Rightarrow> if binary then Inr d else Inr (decode_utf8 env d))"

text \<open>
  Opening a file for writing empties it; in text mode the content is then encoded, and an
  encoding error leaves the file empty.
\<close>

definition write_cache :: "env \<Rightarrow> fs \<Rightarrow> string \<Rightarrow> string \<Rightarrow> bool \<Rightarrow> error option \<times> fs" where
  "write_cache env fs cache_path content binary =
     (case fs cache_path of
        Some (Dir t) \<Rightarrow> (Some (OSError ''Is a directory''), fs)
      | _ \<Rightarrow>
          if binary then (None, fs(cache_path \<mapsto> File content (time_now env)))
          else (case encode_utf8 env content of
                  Inl e \<Rightarrow> (Some e, fs(cache_path \<mapsto> File [] (time_now env)))
                | Inr bytes \<Rightarrow> (None, fs(cache_path \<mapsto> File bytes (time_now env)))))"


section \<open>The request handler \<open>proxy_full_async\<close>\<close>

datatype response =
    Redirect
  | TextBody string
  | BinaryBody string string
  | StatusPage string int
  | ErrorPage string string

text \<open>
  \<open>Redirect\<close> is the redirect to the index page, \<open>TextBody c\<close> a returned \<open>str\<close>,
  \<open>BinaryBody c t\<close> is \<open>Response(c, content_type=t)\<close>, \<open>StatusPage url code\<close> the error
  template rendered with \<open>url\<close> and \<open>status_code\<close>, and \<open>ErrorPage url msg\<close> the error
  template rendered with \<open>url\<close> and \<open>error\<close>.
\<close>

definition serve_cached :: "env \<Rightarrow> fs \<Rightarrow> string \<Rightarrow> (error + response option) \<times> fs" where
  \<comment> \<open>lines 281 to 292; \<open>None\<close> when control falls through to the fetch\<close>
  "serve_cached env fs url =
     (case get_cache_path env fs url None of
        Inl e \<Rightarrow> (Inl e, fs)
      | Inr (cache_path, fs1) \<Rightarrow>
          if fs1 cache_path \<noteq> None then
            (if endswith cache_path ''.html'' then
               (case read_cache env fs1 cache_path False of
                  Inl e \<Rightarrow> (Inl e, fs1)
                | Inr content \<Rightarrow> (Inr (Some (TextBody content)), fs1))
             else
               (case read_cache env fs1 cache_path True of
                  Inl e \<Rightarrow> (Inl e, fs1)
                | Inr content \<Rightarrow> (Inr (Some (BinaryBody content ''image'')), fs1)))
          else (Inr None, fs1))"

definition fetch_and_cache :: "env \<Rightarrow> fs \<Rightarrow> string \<Rightarrow> (error + response) \<times> fs" where
  \<comment> \<open>lines 296 to 348\<close>
  "fetch_and_cache env fs url =
     (case session_get env url of
        Unreachable e \<Rightarrow> (Inl e, fs)
      | Reply code header body text \<Rightarrow>
          if code \<noteq> 200 then (Inr (StatusPage url code), fs)
          else
            (let content_type = lower (case header of None \<Rightarrow> [] | Some h \<Rightarrow> h)
             in case get_cache_path env fs url (Some content_type) of
                  Inl e \<Rightarrow> (Inl e, fs)
                | Inr (cache_path, fs1) \<Rightarrow>
                    if \<not> contains ''text/html'' content_type then
                      (case body of
                         Inl e \<Rightarrow> (Inl e, fs1)
                       | Inr content \<Rightarrow>
                           (case write_cache env fs1 cache_path content True of
                              (Some e, fs2) \<Rightarrow> (Inl e, fs2)
                            | (None, fs2) \<Rightarrow> (Inr (BinaryBody content content_type), fs2)))
                    else
                      (case text of
                         Inl e \<Rightarrow> (Inl e, fs1)
                       | Inr html_content \<Rightarrow>
                           (case rewrite_html env (Some html_content) url of
                              Inl e \<Rightarrow> (Inl e, fs1)
                            | Inr processed_html \<Rightarrow>
                                (case write_cache env fs1 cache_path processed_html False of
                                   (Some e, fs2) \<Rightarrow> (Inl e, fs2)
                                 | (None, fs2) \<Rightarrow> (Inr (TextBody processed_html), fs2))))))"

definition proxy_try :: "env \<Rightarrow> fs \<Rightarrow> string \<Rightarrow> (error + response) \<times> fs" where
  \<comment> \<open>the body of the \<open>try\<close> after the scheme has been added, lines 265 to 348\<close>
  "proxy_try env fs url =
     (if \<not> is_allowed url ALLOW_URLS then (Inl (Exception ''Forbidden URL!''), fs)
      else
        (case is_cached env fs url DEFAULT_CACHE_EXPIRY of
           Inl e \<Rightarrow> (Inl e, fs)
         | Inr (is_cached_content, fs1) \<Rightarrow>
             if is_cached_content then
               (case serve_cached env fs1 url of
                  (Inl e, fs2) \<Rightarrow> (Inl e, fs2)
                | (Inr (Some r), fs2) \<Rightarrow> (Inr r, fs2)
                | (Inr None, fs2) \<Rightarrow> fetch_and_cache env fs2 url)
             else fetch_and_cache env fs1 url))"

definition add_scheme :: "string \<Rightarrow> string" where
  \<comment> \<open>lines 262 and 263\<close>
  "add_scheme url =
     (if \<not> startswith_any url [''http://'', ''https://''] then ''https://'' @ url else url)"

definition proxy_full_async :: "env \<Rightarrow> fs \<Rightarrow> string option \<Rightarrow> response \<times> fs" where
  "proxy_full_async env fs arg =
     (case arg of
        None \<Rightarrow> (Redirect, fs)
      | Some url0 \<Rightarrow>
          if url0 = [] then (Redirect, fs)
          else
            (let url = add_scheme url0
             in case proxy_try env fs url of
                  (Inr r, fs') \<Rightarrow> (r, fs')
                | (Inl e, fs') \<Rightarrow> (ErrorPage url (str_of e), fs')))"


section \<open>A sample environment\<close>

text \<open>
  The theorems below hold for every environment. Their instances at concrete inputs use this
  one: the cache directory \<open>/srv/app/cache\<close>, and the library functions at the inputs of the
  examples. For an \<open>http\<close> or \<open>https\<close> URL of printable characters without brackets,
  \<open>urlparse\<close> gives as \<open>netloc\<close> the text between \<open>//\<close> and the first of \<open>/?#\<close>, and as
  \<open>path\<close> the text from there to the first of \<open>?#\<close>. The sample functions are used at no
  other input.
\<close>

definition sample_urlparse :: "string \<Rightarrow> error + parsed" where
  "sample_urlparse url =
     (let rest = (if startswith url ''http://'' then Some (drop 7 url)
                  else if startswith url ''https://'' then Some (drop 8 url) else None)
      in case rest of
           None \<Rightarrow> Inl (ValueError ''not a sample URL'')
         | Some r \<Rightarrow>
             Inr \<lparr>netloc = takeWhile (\<lambda>c. c \<notin> set ''/?#'') r,
                  url_path = takeWhile (\<lambda>c. c \<notin> set ''?#'')
                               (dropWhile (\<lambda>c. c \<notin> set ''/?#'') r)\<rparr>)"

definition sample_urljoin :: "string \<Rightarrow> string \<Rightarrow> error + string" where
  "sample_urljoin base url =
     (if base = ''https://adventofcode.com/2023/day/1'' \<and> url = ''day/2''
        then Inr ''https://adventofcode.com/2023/day/day/2''
      else if base = ''https://example.com/bar'' \<and> url = ''/foo''
        then Inr ''https://example.com/foo''
      else if base = ''https://example.com/'' \<and> url = ''a.png''
        then Inr ''https://example.com/a.png''
      else if base = ''https://example.com/'' \<and> url = ''b.png''
        then Inr ''https://example.com/b.png''
      else if base = ''https://example.com/'' \<and> url = ''//[''
        then Inl (ValueError ''Invalid IPv6 URL'')
      else Inl (ValueError ''not a sample URL''))"

definition sample_env :: env where
  "sample_env =
     \<lparr>CACHE_DIR = ''/srv/app/cache'',
      urlparse = sample_urlparse,
      urljoin = sample_urljoin,
      guess_extension = (\<lambda>t. if t = ''image/png'' then Some ''.png'' else None),
      parse_html = (\<lambda>h. Inl (Exception ''no sample document'')),
      serialize_html = (\<lambda>s. []),
      decode_utf8 = (\<lambda>b. b),
      encode_utf8 = (\<lambda>s. Inr s),
      session_get = (\<lambda>u. Unreachable (ClientError ''Cannot connect to host'')),
      time_now = 1000\<rparr>"

text \<open>
  A cache that holds the directory of \<open>example.com\<close> and, in it, the page cached for
  \<open>http://example.com/\<close> ten seconds before the sample clock value.
\<close>

definition sample_fs :: fs where
  "sample_fs =
     [''/srv/app/cache/example.com'' \<mapsto> Dir 10,
      ''/srv/app/cache/example.com/http#$$example.com$.html''
         \<mapsto> File ''<html></html>'' 990]"

text \<open>Five sample documents, as the parser \<open>html.parser\<close> builds them.\<close>

definition soup_with_head :: soup where
  "soup_with_head =
     [Tag ''html'' []
        [Tag ''head'' [] [Tag ''title'' [] [NavString ''t'']],
         Tag ''body'' [] [Tag ''a'' [(''href'', Str ''/foo'')] [NavString ''x'']]]]"

definition soup_without_head :: soup where
  "soup_without_head = [Tag ''html'' [] [Tag ''body'' [] [NavString ''x'']]]"

definition soup_with_base :: soup where
  "soup_with_base =
     [Tag ''html'' []
        [Tag ''head'' [] [Tag ''base'' [(''href'', Str ''https://example.com/'')] []]]]"

definition soup_fragment :: soup where
  "soup_fragment = [Tag ''p'' [] [NavString ''hi'']]"

definition soup_with_imgs :: soup where
  "soup_with_imgs =
     [Tag ''html'' []
        [Tag ''body'' []
           [Tag ''img'' [(''src'', Str ''a.png''), (''srcset'', Str ''a.png 1x, b.png 2x'')] [],
            Tag ''img'' [(''srcset'', Str ''a.png 1x, b.png 2x'')] []]]]"


section \<open>Reading a document\<close>

text \<open>
  The statements about the tree use the following readings of a document: the tree without
  its attributes (\<open>skeleton\<close>), a node without its children (\<open>shallow\<close>), the number of
  nodes that satisfy a test, the node at a position, and the tag that \<open>soup.find(name)\<close>
  returns.
\<close>

fun skeleton :: "node \<Rightarrow> node" where
  "skeleton (Tag n as cs) = Tag n [] (map skeleton cs)"
| "skeleton (NavString s) = NavString s"

fun shallow :: "node \<Rightarrow> node" where
  "shallow (Tag n as cs) = Tag n as []"
| "shallow (NavString s) = NavString s"

fun count_node :: "(node \<Rightarrow> bool) \<Rightarrow> node \<Rightarrow> nat"
  and count_nodes :: "(node \<Rightarrow> bool) \<Rightarrow> node list \<Rightarrow> nat"
where
  "count_node P (NavString s) = 0"
| "count_node P (Tag n as cs) = (if P (Tag n as cs) then 1 else 0) + count_nodes P cs"
| "count_nodes P [] = 0"
| "count_nodes P (x # xs) = count_node P x + count_nodes P xs"

fun sub_node :: "path \<Rightarrow> node \<Rightarrow> node option"
  and node_at :: "path \<Rightarrow> node list \<Rightarrow> node option"
where
  "sub_node [] x = Some x"
| "sub_node (i # p) (Tag n as cs) = node_at (i # p) cs"
| "sub_node (i # p) (NavString s) = None"
| "node_at [] xs = None"
| "node_at (i # p) [] = None"
| "node_at (0 # p) (x # xs) = sub_node p x"
| "node_at (Suc i # p) (x # xs) = node_at (i # p) xs"

text \<open>
  The attribute dictionaries of the tags that \<open>soup.find_all(name)\<close> lists, in document
  order.
\<close>

fun tags_of :: "string \<Rightarrow> node \<Rightarrow> attrs list"
  and tags_of_list :: "string \<Rightarrow> node list \<Rightarrow> attrs list"
where
  "tags_of name (NavString s) = []"
| "tags_of name (Tag n as cs) = (if n = name then [as] else []) @ tags_of_list name cs"
| "tags_of_list name [] = []"
| "tags_of_list name (x # xs) = tags_of name x @ tags_of_list name xs"

definition first_tag :: "string \<Rightarrow> soup \<Rightarrow> node option" where
  "first_tag name soup =
     (case find_nodes (is_tag name) soup of None \<Rightarrow> None | Some p \<Rightarrow> node_at p soup)"

text \<open>
  A test on tags that does not look at the children, and a change of a node that touches
  nothing but its attributes.
\<close>

definition tag_pred :: "(node \<Rightarrow> bool) \<Rightarrow> bool" where
  "tag_pred P \<longleftrightarrow>
     (\<forall>n as cs cs'. P (Tag n as cs) = P (Tag n as cs')) \<and> (\<forall>s. \<not> P (NavString s))"

definition attr_only :: "(node \<Rightarrow> node) \<Rightarrow> bool" where
  "attr_only g \<longleftrightarrow>
     (\<forall>n as cs. \<exists>as'. g (Tag n as cs) = Tag n as' cs) \<and> (\<forall>s. g (NavString s) = NavString s)"


text \<open>The regular files of a file system, with their content and modification time.\<close>

definition cache_files :: "fs \<Rightarrow> string \<rightharpoonup> string \<times> real" where
  "cache_files fs p = (case fs p of Some (File d t) \<Rightarrow> Some (d, t) | _ \<Rightarrow> None)"

lemmas sample_simps =
  sample_env_def sample_urljoin_def sample_urlparse_def startswith_any_def startswith_def
  PREFIX_def quote_def quote_chr_def always_safe_def percent_def utf8_bytes_def hex_digit_def


section \<open>The allowlist\<close>

lemma allow_loop_False: "allow_loop url xs False = startswith_any url xs"
  by (induction xs) (auto simp: startswith_any_def)

lemma allow_loop_Cons: "allow_loop url (x # xs) b = startswith_any url (x # xs)"
  unfolding allow_loop.simps allow_loop_False by (simp add: startswith_any_def)

lemma startswith_any_iff: "startswith_any url ps \<longleftrightarrow> (\<exists>p \<in> set ps. startswith url p)"
  by (simp add: startswith_any_def list_ex_iff)

text \<open>
  C1, as the code has it. A URL passes the allowlist loop exactly when the list is empty or the
  URL starts with one of its entries: for a non-empty list the loop is the prefix test of the
  claim, and for the empty list the body never runs, \<open>allowed\<close> keeps its initial value
  \<open>True\<close> and every URL passes.
\<close>

theorem is_allowed_iff:
  "is_allowed url allow_urls \<longleftrightarrow>
     allow_urls = [] \<or> (\<exists>p \<in> set allow_urls. startswith url p)"
proof (cases allow_urls)
  case Nil
  then show ?thesis by (simp add: is_allowed_def)
next
  case (Cons a rest)
  have "is_allowed url (a # rest) = startswith_any url (a # rest)"
    unfolding is_allowed_def by (rule allow_loop_Cons)
  with Cons show ?thesis by (simp add: startswith_any_iff)
qed

theorem is_allowed_iff_witness:
  "is_allowed ''https://adventofcode.com/2023'' ALLOW_URLS
   \<and> \<not> is_allowed ''https://evil.example/'' ALLOW_URLS"
  using is_allowed_iff [of "''https://adventofcode.com/2023''" ALLOW_URLS]
    is_allowed_iff [of "''https://evil.example/''" ALLOW_URLS]
  by (simp add: ALLOW_URLS_def startswith_def)

text \<open>
  C1 as stated fails on the empty allowlist: the URL below starts with none of the (zero)
  prefixes and is allowed.
\<close>

theorem is_allowed_empty_counterexample:
  "is_allowed ''https://evil.example/'' []
   \<and> \<not> startswith_any ''https://evil.example/'' []"
  by (simp add: is_allowed_def startswith_any_def)


section \<open>The URL rewrite rule\<close>

lemma quote_append: "quote (a @ b) = quote a @ quote b"
  by (simp add: quote_def)

lemma quote_Cons: "quote (c # cs) = quote_chr c @ quote cs"
  by (simp add: quote_def)

lemma quote_chr_colon: "quote_chr CHR '':'' = ''%3A''"
  by (simp add: quote_chr_def always_safe_def percent_def utf8_bytes_def hex_digit_def)

lemma quote_chr_slash: "quote_chr CHR ''/'' = ''/''"
  by (simp add: quote_chr_def)

text \<open>
  C9. An attribute value that is empty or starts with \<open>javascript:\<close>, \<open>data:\<close>, \<open>#\<close> or
  \<open>mailto:\<close> is returned as it is, whatever the base URL and the environment.
\<close>

theorem rewrite_url_unchanged:
  assumes "url = [] \<or> startswith_any url [''javascript:'', ''data:'', ''#'', ''mailto:'']"
  shows "rewrite_url env url base_url = Inr url"
  using assms by (auto simp: rewrite_url_def)

theorem rewrite_url_unchanged_witness:
  "rewrite_url sample_env ''javascript:void(0)'' ''https://example.com/bar''
     = Inr ''javascript:void(0)''
   \<and> rewrite_url sample_env [] ''https://example.com/bar'' = Inr []"
  using rewrite_url_unchanged [of "''javascript:void(0)''" sample_env "''https://example.com/bar''"]
    rewrite_url_unchanged [of "[]" sample_env "''https://example.com/bar''"]
  by (simp add: startswith_any_def startswith_def)

text \<open>
  C2, as the code has it. For a relative value (not empty, none of the four skipped prefixes,
  neither \<open>http://\<close> nor \<open>https://\<close>) that \<open>urljoin\<close> resolves against the base URL to
  \<open>absolute\<close>, the result is \<open>PREFIX\<close>, then \<open>/proxy?url=\<close>, then \<open>quote(absolute)\<close>. The
  encoding works character by character; it turns each colon into \<open>%3A\<close> and leaves each slash
  as it is. When \<open>urljoin\<close> raises, \<open>rewrite_url\<close> raises the same exception.
\<close>

theorem rewrite_url_relative:
  assumes "url \<noteq> []"
    and "\<not> startswith_any url [''javascript:'', ''data:'', ''#'', ''mailto:'']"
    and "\<not> startswith_any url [''http://'', ''https://'']"
  shows "(urljoin env base_url url = Inr absolute \<longrightarrow>
            rewrite_url env url base_url = Inr (PREFIX @ ''/proxy?url='' @ quote absolute))
         \<and> (urljoin env base_url url = Inl e \<longrightarrow> rewrite_url env url base_url = Inl e)
         \<and> quote (a @ '':'' @ b) = quote a @ ''%3A'' @ quote b
         \<and> quote (a @ ''/'' @ b) = quote a @ ''/'' @ quote b"
  using assms
  by (simp add: rewrite_url_def quote_append quote_Cons quote_chr_colon quote_chr_slash)

theorem rewrite_url_relative_witness:
  "rewrite_url sample_env ''day/2'' ''https://adventofcode.com/2023/day/1''
     = Inr (PREFIX @ ''/proxy?url='' @ ''https%3A//adventofcode.com/2023/day/day/2'')"
proof -
  have "rewrite_url sample_env ''day/2'' ''https://adventofcode.com/2023/day/1''
          = Inr (PREFIX @ ''/proxy?url='' @ quote ''https://adventofcode.com/2023/day/day/2'')"
    using rewrite_url_relative [of "''day/2''" sample_env "''https://adventofcode.com/2023/day/1''"
        "''https://adventofcode.com/2023/day/day/2''"]
    by (simp add: sample_env_def sample_urljoin_def startswith_any_def startswith_def)
  then show ?thesis
    by (simp add: quote_def quote_chr_def always_safe_def percent_def utf8_bytes_def hex_digit_def)
qed

text \<open>
  C2 as stated fails on its own example: with \<open>day/2\<close> resolved against
  \<open>https://adventofcode.com/2023/day/1\<close>, the slashes of the absolute URL are not
  percent-encoded, so the result is not the value that the claim gives.
\<close>

theorem rewrite_url_slash_counterexample:
  "rewrite_url sample_env ''day/2'' ''https://adventofcode.com/2023/day/1''
     = Inr ''/cachingproxy/proxy?url=https%3A//adventofcode.com/2023/day/day/2''
   \<and> rewrite_url sample_env ''day/2'' ''https://adventofcode.com/2023/day/1''
     \<noteq> Inr ''/cachingproxy/proxy?url=https%3A%2F%2Fadventofcode.com%2F2023%2Fday%2Fday%2F2''"
  by (simp add: rewrite_url_def sample_simps)


section \<open>The empty document\<close>

text \<open>
  C10. For \<open>None\<close> and for the empty string, \<open>rewrite_html\<close> returns the empty string. The
  result is the same in every environment, so it does not depend on the parser, and it is a
  value, not an exception.
\<close>

theorem rewrite_html_falsy:
  assumes "html_content = None \<or> html_content = Some []"
  shows "rewrite_html env html_content base_url = Inr []"
  using assms by (auto simp: rewrite_html_def)

theorem rewrite_html_falsy_witness:
  "parse_html sample_env [] = Inl (Exception ''no sample document'')
   \<and> rewrite_html sample_env (Some []) ''https://example.com/'' = Inr []
   \<and> rewrite_html sample_env None ''https://example.com/'' = Inr []"
  using rewrite_html_falsy [of "Some []" sample_env "''https://example.com/''"]
    rewrite_html_falsy [of None sample_env "''https://example.com/''"]
  by (simp add: sample_env_def)


section \<open>The cache path and the freshness test\<close>

lemma encode_url_no_slash: "CHR ''/'' \<notin> set (encode_url url)"
  by (auto simp: encode_url_def replace_chr_def)

lemma endswith_slash: "endswith a ''/'' \<Longrightarrow> a \<noteq> [] \<and> last a = CHR ''/''"
  by (cases a rule: rev_cases) (auto simp: endswith_def)

lemma path_join_form:
  "\<exists>X. path_join a b = X @ b \<and> (X = [] \<or> last X = CHR ''/'')"
proof (cases "startswith b ''/''")
  case True
  then show ?thesis by (simp add: path_join_def)
next
  case False
  show ?thesis
  proof (cases "a = [] \<or> endswith a ''/''")
    case True
    with False have "path_join a b = a @ b" by (auto simp: path_join_def)
    with True show ?thesis using endswith_slash by blast
  next
    case False
    with \<open>\<not> startswith b ''/''\<close> have "path_join a b = (a @ ''/'') @ b"
      by (auto simp: path_join_def)
    then show ?thesis by (metis last_snoc)
  qed
qed

lemma path_join_endswith: "endswith (path_join a (b @ e)) e"
  by (auto simp: path_join_def endswith_def)

lemma path_join_neq:
  assumes "b \<noteq> []" "\<not> startswith b ''/''"
  shows "path_join a b \<noteq> a"
  using assms by (auto simp: path_join_def)

lemma fname_html: "encode_url url @ ''.html'' \<noteq> [] \<and> \<not> startswith (encode_url url @ ''.html'') ''/''"
  using encode_url_no_slash[of url]
  by (cases "encode_url url") (auto simp: startswith_def)

lemma mkdir_cases:
  assumes "mkdir_exist_ok env fs d = Inr fs'"
  shows "(fs' = fs \<or> (fs d = None \<and> fs' = fs(d \<mapsto> Dir (time_now env)))) \<and> (\<exists>t. fs' d = Some (Dir t))"
  using assms by (auto simp: mkdir_exist_ok_def split: option.splits entry.splits)

lemma mkdir_again:
  assumes "mkdir_exist_ok env fs d = Inr fs'"
  shows "mkdir_exist_ok env fs' d = Inr fs'"
  using mkdir_cases[OF assms] by (auto simp: mkdir_exist_ok_def)

lemma get_cache_path_None:
  assumes "get_cache_path env fs url None = Inr (p, fs')"
  shows "endswith p ''.html'' \<and> fs' p = fs p \<and> cache_files fs' = cache_files fs
         \<and> get_cache_path env fs' url None = Inr (p, fs')"
proof -
  from assms obtain pr where pr: "urlparse env url = Inr pr"
    by (auto simp: get_cache_path_def split: sum.splits)
  let ?d = "path_join (CACHE_DIR env) (netloc pr)"
  from assms pr have p: "p = path_join ?d (encode_url url @ ''.html'')"
    and mk: "mkdir_exist_ok env fs ?d = Inr fs'"
    by (auto simp: get_cache_path_def cache_ext_def Let_def split: sum.splits)
  have ne: "p \<noteq> ?d" unfolding p using fname_html[of url] by (intro path_join_neq) auto
  have 1: "endswith p ''.html''" unfolding p by (rule path_join_endswith)
  have 2: "fs' p = fs p" using mkdir_cases[OF mk] ne by auto
  have 3: "cache_files fs' = cache_files fs"
    using mkdir_cases[OF mk] by (auto simp: cache_files_def fun_eq_iff)
  have 4: "get_cache_path env fs' url None = Inr (p, fs')"
    using pr p mkdir_again[OF mk] by (simp add: get_cache_path_def cache_ext_def Let_def)
  show ?thesis using 1 2 3 4 by simp
qed

text \<open>
  C6. \<open>is_cached(url, max_age)\<close> returns \<open>True\<close> exactly when \<open>get_cache_path(url)\<close>, called
  without a content type, resolves to a path, an entry exists at that path, and the clock
  minus the entry's modification time is strictly less than \<open>max_age\<close>. That path ends in
  \<open>.html\<close>. (When \<open>get_cache_path\<close> raises, so does \<open>is_cached\<close>.)
\<close>

theorem is_cached_iff:
  "(\<exists>fs'. is_cached env fs url max_age = Inr (True, fs')) \<longleftrightarrow>
   (\<exists>p fs' f. get_cache_path env fs url None = Inr (p, fs') \<and> endswith p ''.html''
       \<and> fs p = Some f \<and> time_now env - mtime f < max_age)"
proof
  assume "\<exists>fs'. is_cached env fs url max_age = Inr (True, fs')"
  then obtain fs' where h: "is_cached env fs url max_age = Inr (True, fs')" ..
  then obtain p f where g: "get_cache_path env fs url None = Inr (p, fs')"
    and f: "fs' p = Some f" "time_now env - mtime f < max_age"
    by (auto simp: is_cached_def split: sum.splits option.splits if_splits)
  from get_cache_path_None[OF g] have "endswith p ''.html''" and "fs' p = fs p" by simp_all
  with f have "get_cache_path env fs url None = Inr (p, fs') \<and> endswith p ''.html''
       \<and> fs p = Some f \<and> time_now env - mtime f < max_age" using g by simp
  then show "\<exists>p fs' f. get_cache_path env fs url None = Inr (p, fs') \<and> endswith p ''.html''
       \<and> fs p = Some f \<and> time_now env - mtime f < max_age" by blast
next
  assume "\<exists>p fs' f. get_cache_path env fs url None = Inr (p, fs') \<and> endswith p ''.html''
       \<and> fs p = Some f \<and> time_now env - mtime f < max_age"
  then obtain p fs' f where g: "get_cache_path env fs url None = Inr (p, fs')"
    and f: "fs p = Some f" "time_now env - mtime f < max_age" by auto
  from get_cache_path_None[OF g] f have "fs' p = Some f" by simp
  with g f show "\<exists>fs'. is_cached env fs url max_age = Inr (True, fs')"
    by (auto simp: is_cached_def)
qed


theorem is_cached_iff_witness:
  "is_cached sample_env sample_fs ''http://example.com/'' 60 = Inr (True, sample_fs)
   \<and> is_cached sample_env sample_fs ''http://example.com/'' 10 \<noteq> Inr (True, sample_fs)"
proof -
  have p: "get_cache_path sample_env sample_fs ''http://example.com/'' None
      = Inr (''/srv/app/cache/example.com/http#$$example.com$.html'', sample_fs)"
    by (simp add: get_cache_path_def cache_ext_def sample_env_def sample_urlparse_def
        startswith_def path_join_def endswith_def encode_url_def replace_chr_def
        mkdir_exist_ok_def sample_fs_def Let_def)
  have f: "sample_fs ''/srv/app/cache/example.com/http#$$example.com$.html''
      = Some (File ''<html></html>'' 990)"
    by (simp add: sample_fs_def)
  have t: "time_now sample_env = 1000" by (simp add: sample_env_def)
  have "\<exists>fs'. is_cached sample_env sample_fs ''http://example.com/'' 60 = Inr (True, fs')"
    unfolding is_cached_iff using p f t by (simp add: endswith_def)
  moreover have "\<not> (\<exists>fs'. is_cached sample_env sample_fs ''http://example.com/'' 10
      = Inr (True, fs'))"
    unfolding is_cached_iff using p f t by simp
  moreover have "\<And>b fs'. is_cached sample_env sample_fs ''http://example.com/'' b = Inr (True, fs')
      \<Longrightarrow> fs' = sample_fs"
    using p by (simp add: is_cached_def split: option.splits if_splits)
  ultimately show ?thesis by blast
qed


section \<open>Serving a cache hit\<close>

lemma serve_cached_text:
  assumes g: "get_cache_path env fs1 url None = Inr (p, fs1)" and ex: "fs1 p \<noteq> None"
  shows "serve_cached env fs1 url =
           (case read_cache env fs1 p False of
              Inl e \<Rightarrow> (Inl e, fs1)
            | Inr c \<Rightarrow> (Inr (Some (TextBody c)), fs1))"
  using get_cache_path_None[OF g] g ex by (simp add: serve_cached_def)

lemma serve_cached_never_binary: "fst (serve_cached env fs url) \<noteq> Inr (Some (BinaryBody c t))"
proof (cases "get_cache_path env fs url None")
  case (Inl e)
  then show ?thesis by (simp add: serve_cached_def)
next
  case (Inr r)
  obtain p fs1 where r: "r = (p, fs1)" by (cases r)
  from get_cache_path_None[OF Inr[unfolded r]] have "endswith p ''.html''" by simp
  with Inr r show ?thesis by (simp add: serve_cached_def split: sum.splits)
qed

text \<open>
  C4. When \<open>is_cached(url)\<close> returns \<open>True\<close>, the path that the handler resolves again ends
  in \<open>.html\<close> and an entry exists there, so lines 281 to 292 take the text branch: the result
  is the text read from that path (or the exception of the read). The binary branch, which
  answers with the content type \<open>image\<close>, is taken for no input. An entry is reported fresh
  only at a path that ends in \<open>.html\<close>.
\<close>

theorem cache_hit_text_branch:
  assumes hit: "is_cached env fs url max_age = Inr (True, fs1)"
  shows "\<exists>p. get_cache_path env fs1 url None = Inr (p, fs1) \<and> endswith p ''.html''
            \<and> fs p \<noteq> None
            \<and> serve_cached env fs1 url =
                (case read_cache env fs1 p False of
                   Inl e \<Rightarrow> (Inl e, fs1)
                 | Inr c \<Rightarrow> (Inr (Some (TextBody c)), fs1))
            \<and> (\<forall>c t. fst (serve_cached env fs1 url) \<noteq> Inr (Some (BinaryBody c t)))
            \<and> (max_age = DEFAULT_CACHE_EXPIRY \<and> is_allowed url ALLOW_URLS \<longrightarrow>
                 proxy_try env fs url =
                   (case read_cache env fs1 p False of
                      Inl e \<Rightarrow> (Inl e, fs1)
                    | Inr c \<Rightarrow> (Inr (TextBody c), fs1)))"
proof -
  from hit obtain p f where g: "get_cache_path env fs url None = Inr (p, fs1)"
    and f: "fs1 p = Some f"
    by (auto simp: is_cached_def split: sum.splits option.splits if_splits)
  note n = get_cache_path_None[OF g]
  from n have g1: "get_cache_path env fs1 url None = Inr (p, fs1)" by simp
  from n have e: "fs1 p = fs p" by simp
  have "fs p = Some f" using e f by simp
  then have ex: "fs p \<noteq> None" by simp
  from f have ex1: "fs1 p \<noteq> None" by simp
  note s = serve_cached_text[OF g1 ex1]
  have t: "max_age = DEFAULT_CACHE_EXPIRY \<and> is_allowed url ALLOW_URLS \<longrightarrow>
                 proxy_try env fs url =
                   (case read_cache env fs1 p False of
                      Inl e \<Rightarrow> (Inl e, fs1)
                    | Inr c \<Rightarrow> (Inr (TextBody c), fs1))"
    using hit s by (auto simp: proxy_try_def split: sum.splits)
  from g1 n ex s t serve_cached_never_binary show ?thesis by blast
qed

theorem cache_hit_text_branch_witness:
  "is_cached sample_env sample_fs ''http://example.com/'' DEFAULT_CACHE_EXPIRY
     = Inr (True, sample_fs)
   \<and> proxy_try sample_env sample_fs ''http://example.com/''
     = (Inr (TextBody ''<html></html>''), sample_fs)"
proof -
  have p: "get_cache_path sample_env sample_fs ''http://example.com/'' None
      = Inr (''/srv/app/cache/example.com/http#$$example.com$.html'', sample_fs)"
    by (simp add: get_cache_path_def cache_ext_def sample_env_def sample_urlparse_def
        startswith_def path_join_def endswith_def encode_url_def replace_chr_def
        mkdir_exist_ok_def sample_fs_def Let_def)
  have hit: "is_cached sample_env sample_fs ''http://example.com/'' DEFAULT_CACHE_EXPIRY
     = Inr (True, sample_fs)"
    unfolding is_cached_def p
    by (simp add: sample_fs_def sample_env_def DEFAULT_CACHE_EXPIRY_def ONE_YEAR_IN_SECONDS_def
        ONE_DAY_IN_SECONDS_def ONE_HOUR_IN_SECONDS_def ONE_MINUTE_IN_SECONDS_def)
  have al: "is_allowed ''http://example.com/'' ALLOW_URLS"
    by (simp add: is_allowed_def ALLOW_URLS_def startswith_def)
  have rd: "read_cache sample_env sample_fs
      ''/srv/app/cache/example.com/http#$$example.com$.html'' False = Inr ''<html></html>''"
    by (simp add: read_cache_def sample_fs_def sample_env_def)
  from cache_hit_text_branch[OF hit] p al rd hit show ?thesis by auto
qed



section \<open>A failed fetch\<close>

lemma get_cache_path_again:
  assumes "get_cache_path env fs url None = Inr (p, fs1)"
  shows "\<exists>p'. get_cache_path env fs1 url ct = Inr (p', fs1)"
proof -
  from assms obtain pr where pr: "urlparse env url = Inr pr"
    by (auto simp: get_cache_path_def split: sum.splits)
  from assms pr have "mkdir_exist_ok env fs (path_join (CACHE_DIR env) (netloc pr)) = Inr fs1"
    by (auto simp: get_cache_path_def Let_def split: sum.splits)
  from mkdir_again[OF this] pr show ?thesis by (simp add: get_cache_path_def Let_def)
qed

text \<open>
  C7. Take a request for an allowed URL that is not served from the cache. If
  \<open>session.get\<close> fails, or the response has a status other than 200, or the status is 200
  and reading the body fails, the handler returns the error page rendered with the URL that
  was fetched (the request's URL, with \<open>https://\<close> put in front when it had no scheme) and
  with the exception's text or the status code. No file of the cache is written: the regular
  files are the same before and after.
\<close>

theorem fetch_failure_not_cached:
  assumes req: "url0 \<noteq> []" and url: "url = add_scheme url0"
    and allowed: "is_allowed url ALLOW_URLS"
    and miss: "is_cached env fs url DEFAULT_CACHE_EXPIRY = Inr (False, fs1)"
    and fail: "(session_get env url = Unreachable e \<and> page = ErrorPage url (str_of e))
             \<or> (\<exists>h b t. session_get env url = Reply code h b t \<and> code \<noteq> 200
                   \<and> page = StatusPage url code)
             \<or> (\<exists>h b t. session_get env url = Reply 200 h b t
                   \<and> (if contains ''text/html'' (lower (case h of None \<Rightarrow> [] | Some v \<Rightarrow> v))
                       then t = Inl e else b = Inl e)
                   \<and> page = ErrorPage url (str_of e))"
  shows "proxy_full_async env fs (Some url0) = (page, fs1)
         \<and> cache_files fs1 = cache_files fs
         \<and> (startswith_any url0 [''http://'', ''https://''] \<longrightarrow> url = url0)"
proof -
  from miss obtain p where g: "get_cache_path env fs url None = Inr (p, fs1)"
    by (auto simp: is_cached_def split: sum.splits option.splits if_splits)
  from get_cache_path_None[OF g] have c: "cache_files fs1 = cache_files fs" by simp
  have f: "fetch_and_cache env fs1 url =
      (case page of ErrorPage u m \<Rightarrow> Inl e | _ \<Rightarrow> Inr page, fs1)"
    using fail
  proof (elim disjE exE conjE)
    fix h b t
    assume s: "session_get env url = Reply 200 h b t"
      and r: "if contains ''text/html'' (lower (case h of None \<Rightarrow> [] | Some v \<Rightarrow> v))
              then t = Inl e else b = Inl e"
      and pg: "page = ErrorPage url (str_of e)"
    let ?ct = "lower (case h of None \<Rightarrow> [] | Some v \<Rightarrow> v)"
    from get_cache_path_again[OF g, of "Some ?ct"] obtain p' where
      "get_cache_path env fs1 url (Some ?ct) = Inr (p', fs1)" ..
    with s r pg show ?thesis by (simp add: fetch_and_cache_def Let_def split: if_splits)
  qed (auto simp: fetch_and_cache_def)
  have t: "proxy_try env fs url = fetch_and_cache env fs1 url"
    using allowed miss by (simp add: proxy_try_def)
  have "proxy_full_async env fs (Some url0) = (page, fs1)"
    using req url t f fail by (auto simp: proxy_full_async_def Let_def)
  with c url show ?thesis by (simp add: add_scheme_def)
qed

theorem fetch_failure_not_cached_witness:
  "proxy_full_async sample_env sample_fs (Some ''adventofcode.com/2023'')
     = (ErrorPage ''https://adventofcode.com/2023'' ''Cannot connect to host'',
        sample_fs(''/srv/app/cache/adventofcode.com'' \<mapsto> Dir 1000))
   \<and> proxy_full_async (sample_env\<lparr>session_get := \<lambda>u. Reply 404 None (Inr []) (Inr [])\<rparr>)
        sample_fs (Some ''adventofcode.com/2023'')
     = (StatusPage ''https://adventofcode.com/2023'' 404,
        sample_fs(''/srv/app/cache/adventofcode.com'' \<mapsto> Dir 1000))
   \<and> proxy_full_async
        (sample_env\<lparr>session_get := \<lambda>u. Reply 200 (Some ''image/png'')
                                           (Inl (ClientError ''Timeout'')) (Inr [])\<rparr>)
        sample_fs (Some ''adventofcode.com/2023'')
     = (ErrorPage ''https://adventofcode.com/2023'' ''Timeout'',
        sample_fs(''/srv/app/cache/adventofcode.com'' \<mapsto> Dir 1000))
   \<and> cache_files (sample_fs(''/srv/app/cache/adventofcode.com'' \<mapsto> Dir 1000))
     = cache_files sample_fs"
proof -
  let ?env3 = "sample_env\<lparr>session_get := \<lambda>u. Reply 200 (Some ''image/png'')
                                           (Inl (ClientError ''Timeout'')) (Inr [])\<rparr>"
  let ?env = "sample_env\<lparr>session_get := \<lambda>u. Reply 404 None (Inr []) (Inr [])\<rparr>"
  let ?fs1 = "sample_fs(''/srv/app/cache/adventofcode.com'' \<mapsto> Dir 1000)"
  have u: "''https://adventofcode.com/2023'' = add_scheme ''adventofcode.com/2023''"
    by (simp add: add_scheme_def startswith_any_def startswith_def)
  have al: "is_allowed ''https://adventofcode.com/2023'' ALLOW_URLS"
    by (simp add: is_allowed_def ALLOW_URLS_def startswith_def)
  have p: "get_cache_path sample_env sample_fs ''https://adventofcode.com/2023'' None
      = Inr (''/srv/app/cache/adventofcode.com/https#$$adventofcode.com$2023.html'', ?fs1)"
    by (simp add: get_cache_path_def cache_ext_def sample_env_def sample_urlparse_def
        startswith_def path_join_def endswith_def encode_url_def replace_chr_def
        mkdir_exist_ok_def sample_fs_def Let_def)
  have p': "get_cache_path ?env sample_fs ''https://adventofcode.com/2023'' None
      = Inr (''/srv/app/cache/adventofcode.com/https#$$adventofcode.com$2023.html'', ?fs1)"
    by (simp add: get_cache_path_def cache_ext_def sample_env_def sample_urlparse_def
        startswith_def path_join_def endswith_def encode_url_def replace_chr_def
        mkdir_exist_ok_def sample_fs_def Let_def)
  have m: "is_cached sample_env sample_fs ''https://adventofcode.com/2023'' DEFAULT_CACHE_EXPIRY
      = Inr (False, ?fs1)"
    unfolding is_cached_def p by (simp add: sample_fs_def)
  have m': "is_cached ?env sample_fs ''https://adventofcode.com/2023'' DEFAULT_CACHE_EXPIRY
      = Inr (False, ?fs1)"
    unfolding is_cached_def p' by (simp add: sample_fs_def)
  have 1: "proxy_full_async sample_env sample_fs (Some ''adventofcode.com/2023'')
     = (ErrorPage ''https://adventofcode.com/2023'' ''Cannot connect to host'', ?fs1)"
    using fetch_failure_not_cached [OF _ u al m,
        of "ClientError ''Cannot connect to host''"
           "ErrorPage ''https://adventofcode.com/2023'' ''Cannot connect to host''" 0]
    by (simp add: sample_env_def)
  have 2: "proxy_full_async ?env sample_fs (Some ''adventofcode.com/2023'')
     = (StatusPage ''https://adventofcode.com/2023'' 404, ?fs1)"
    using fetch_failure_not_cached [OF _ u al m',
        of "ClientError []" "StatusPage ''https://adventofcode.com/2023'' 404" 404]
    by (simp add: sample_env_def)
  have p3: "get_cache_path ?env3 sample_fs ''https://adventofcode.com/2023'' None
      = Inr (''/srv/app/cache/adventofcode.com/https#$$adventofcode.com$2023.html'', ?fs1)"
    by (simp add: get_cache_path_def cache_ext_def sample_env_def sample_urlparse_def
        startswith_def path_join_def endswith_def encode_url_def replace_chr_def
        mkdir_exist_ok_def sample_fs_def Let_def)
  have m3: "is_cached ?env3 sample_fs ''https://adventofcode.com/2023'' DEFAULT_CACHE_EXPIRY
      = Inr (False, ?fs1)"
    unfolding is_cached_def p3 by (simp add: sample_fs_def)
  have l: "lower ''image/png'' = ''image/png''"
    by (simp add: lower_def lower_chr_def)
  have 3: "proxy_full_async ?env3 sample_fs (Some ''adventofcode.com/2023'')
     = (ErrorPage ''https://adventofcode.com/2023'' ''Timeout'', ?fs1)
     \<and> cache_files ?fs1 = cache_files sample_fs"
    using fetch_failure_not_cached [OF _ u al m3,
        of "ClientError ''Timeout''" "ErrorPage ''https://adventofcode.com/2023'' ''Timeout''" 0]
    by (simp add: sample_env_def l startswith_def)
  from 1 2 3 show ?thesis by simp
qed


section \<open>Distinct URLs and their cache paths\<close>

lemma splitext_ext_form:
  "splitext_ext p = [] \<or>
   (\<exists>t. splitext_ext p = CHR ''.'' # t \<and> CHR ''.'' \<notin> set t \<and> CHR ''/'' \<notin> set t)"
proof -
  let ?component = "takeWhile (\<lambda>c. c \<noteq> CHR ''/'') (rev p)"
  let ?after = "takeWhile (\<lambda>c. c \<noteq> CHR ''.'') ?component"
  have a: "CHR ''.'' \<notin> set ?after" by (auto dest: set_takeWhileD)
  have "set ?after \<subseteq> set ?component" by (auto dest: set_takeWhileD)
  moreover have "CHR ''/'' \<notin> set ?component" by (auto dest: set_takeWhileD)
  ultimately have b: "CHR ''/'' \<notin> set ?after" by blast
  from a b show ?thesis by (simp add: splitext_ext_def Let_def)
qed

lemma cache_ext_cases:
  "(\<forall>p q. cache_ext env p ct = cache_ext env q ct) \<or>
   (\<forall>p. \<exists>t. cache_ext env p ct = CHR ''.'' # t \<and> CHR ''.'' \<notin> set t \<and> CHR ''/'' \<notin> set t)"
proof (cases "\<exists>c. ct = Some c \<and> c \<noteq> [] \<and> contains ''image'' c
          \<and> (guess_extension env c = None \<or> guess_extension env c = Some [])")
  case True
  then obtain c where c: "ct = Some c" "c \<noteq> []" "contains ''image'' c"
    "guess_extension env c = None \<or> guess_extension env c = Some []" by blast
  have "\<exists>t. cache_ext env p ct = CHR ''.'' # t \<and> CHR ''.'' \<notin> set t \<and> CHR ''/'' \<notin> set t" for p
    using c splitext_ext_form[of "url_path p"] by (auto simp: cache_ext_def Let_def)
  then show ?thesis by blast
next
  case False
  then have "cache_ext env p ct = cache_ext env q ct" for p q
    by (auto simp: cache_ext_def Let_def split: option.splits)
  then show ?thesis by blast
qed

lemma tail_unique:
  assumes eq: "X1 @ s1 = X2 @ s2"
    and "c \<notin> set s1" "c \<notin> set s2"
    and "X1 = [] \<or> last X1 = c" "X2 = [] \<or> last X2 = c"
  shows "s1 = s2 \<and> X1 = X2"
proof -
  have tw: "takeWhile (\<lambda>x. x \<noteq> c) (rev (X @ s)) = rev s"
    if "c \<notin> set s" "X = [] \<or> last X = c" for X s
  proof -
    have "takeWhile (\<lambda>x. x \<noteq> c) (rev s @ rev X) = rev s @ takeWhile (\<lambda>x. x \<noteq> c) (rev X)"
      using that(1) by (intro takeWhile_append2) auto
    moreover have "takeWhile (\<lambda>x. x \<noteq> c) (rev X) = []"
      using that(2) by (cases X rule: rev_cases) auto
    ultimately show ?thesis by simp
  qed
  from tw[of s1 X1] tw[of s2 X2] assms have "rev s1 = rev s2" by simp
  then have "s1 = s2" by simp
  with eq show ?thesis by simp
qed

lemma dot_form_unique:
  assumes "s1 @ CHR ''.'' # t1 = s2 @ CHR ''.'' # t2"
    and "CHR ''.'' \<notin> set t1" "CHR ''.'' \<notin> set t2"
  shows "s1 = s2"
proof -
  from assms(1) have "(s1 @ ''.'') @ t1 = (s2 @ ''.'') @ t2" by simp
  from tail_unique[OF this assms(2,3)] show ?thesis by simp
qed

lemma encode_url_inj:
  assumes "encode_url u1 = encode_url u2"
    and "CHR ''$'' \<notin> set u1 \<union> set u2" "CHR ''#'' \<notin> set u1 \<union> set u2"
  shows "u1 = u2"
  using assms
proof (induction u1 arbitrary: u2)
  case Nil
  then show ?case by (simp add: encode_url_def replace_chr_def)
next
  case (Cons a u1)
  then obtain b v where u2: "u2 = b # v" by (cases u2) (auto simp: encode_url_def replace_chr_def)
  with Cons.prems have "encode_url u1 = encode_url v" and ab: "a = b"
    by (auto simp: encode_url_def replace_chr_def split: if_splits)
  with Cons u2 show ?case by auto
qed

text \<open>
  C3, as the code has it. Two distinct URLs that contain neither \<open>$\<close> nor \<open>#\<close>, resolved with
  the same content type (or both without one), get distinct cache paths.
\<close>

theorem cache_path_distinct:
  assumes ne: "u1 \<noteq> u2"
    and dollar: "CHR ''$'' \<notin> set u1 \<union> set u2"
    and hash: "CHR ''#'' \<notin> set u1 \<union> set u2"
    and g1: "get_cache_path env fs u1 ct = Inr (p1, fs1)"
    and g2: "get_cache_path env fs' u2 ct = Inr (p2, fs2)"
  shows "p1 \<noteq> p2"
proof
  assume eq: "p1 = p2"
  from g1 obtain r1 where r1: "urlparse env u1 = Inr r1"
    by (auto simp: get_cache_path_def split: sum.splits)
  from g2 obtain r2 where r2: "urlparse env u2 = Inr r2"
    by (auto simp: get_cache_path_def split: sum.splits)
  let ?e1 = "cache_ext env r1 ct" and ?e2 = "cache_ext env r2 ct"
  from g1 r1 obtain d1 where p1: "p1 = path_join d1 (encode_url u1 @ ?e1)"
    by (auto simp: get_cache_path_def Let_def split: sum.splits)
  from g2 r2 obtain d2 where p2: "p2 = path_join d2 (encode_url u2 @ ?e2)"
    by (auto simp: get_cache_path_def Let_def split: sum.splits)
  from path_join_form[of d1 "encode_url u1 @ ?e1"] p1
  obtain X1 where X1: "p1 = X1 @ encode_url u1 @ ?e1" "X1 = [] \<or> last X1 = CHR ''/''" by auto
  from path_join_form[of d2 "encode_url u2 @ ?e2"] p2
  obtain X2 where X2: "p2 = X2 @ encode_url u2 @ ?e2" "X2 = [] \<or> last X2 = CHR ''/''" by auto
  have enc: "encode_url u1 = encode_url u2"
    using cache_ext_cases[of env ct]
  proof
    assume "\<forall>p q. cache_ext env p ct = cache_ext env q ct"
    then have "?e1 = ?e2" by blast
    with eq X1 X2 have "X1 @ encode_url u1 = X2 @ encode_url u2" by simp
    from tail_unique[OF this encode_url_no_slash encode_url_no_slash X1(2) X2(2)]
    show ?thesis by simp
  next
    assume d: "\<forall>p. \<exists>t. cache_ext env p ct = CHR ''.'' # t \<and> CHR ''.'' \<notin> set t
        \<and> CHR ''/'' \<notin> set t"
    then obtain t1 where t1: "?e1 = CHR ''.'' # t1" "CHR ''.'' \<notin> set t1" "CHR ''/'' \<notin> set t1"
      by blast
    from d obtain t2 where t2: "?e2 = CHR ''.'' # t2" "CHR ''.'' \<notin> set t2" "CHR ''/'' \<notin> set t2"
      by blast
    have n1: "CHR ''/'' \<notin> set (encode_url u1 @ ?e1)"
      using encode_url_no_slash[of u1] t1 by simp
    have n2: "CHR ''/'' \<notin> set (encode_url u2 @ ?e2)"
      using encode_url_no_slash[of u2] t2 by simp
    from eq X1 X2 have "X1 @ (encode_url u1 @ ?e1) = X2 @ (encode_url u2 @ ?e2)" by simp
    from tail_unique[OF this n1 n2 X1(2) X2(2)]
    have "encode_url u1 @ CHR ''.'' # t1 = encode_url u2 @ CHR ''.'' # t2" using t1 t2 by simp
    from dot_form_unique[OF this t1(2) t2(2)] show ?thesis .
  qed
  from encode_url_inj[OF enc dollar hash] ne show False by simp
qed

lemmas gcp_simps = get_cache_path_def cache_ext_def sample_env_def sample_urlparse_def
        startswith_def path_join_def endswith_def encode_url_def replace_chr_def
        mkdir_exist_ok_def Let_def

theorem cache_path_distinct_witness:
  "get_cache_path sample_env Map.empty ''http://example.com/a/b'' (Some ''image/png'')
     = Inr (''/srv/app/cache/example.com/http#$$example.com$a$b.png'',
            [''/srv/app/cache/example.com'' \<mapsto> Dir 1000])
   \<and> get_cache_path sample_env Map.empty ''http://example.com/a/c'' (Some ''image/png'')
     = Inr (''/srv/app/cache/example.com/http#$$example.com$a$c.png'',
            [''/srv/app/cache/example.com'' \<mapsto> Dir 1000])
   \<and> ''/srv/app/cache/example.com/http#$$example.com$a$b.png''
     \<noteq> ''/srv/app/cache/example.com/http#$$example.com$a$c.png''"
proof -
  have 1: "get_cache_path sample_env Map.empty ''http://example.com/a/b'' (Some ''image/png'')
     = Inr (''/srv/app/cache/example.com/http#$$example.com$a$b.png'',
            [''/srv/app/cache/example.com'' \<mapsto> Dir 1000])"
    by (simp add: gcp_simps)
  have 2: "get_cache_path sample_env Map.empty ''http://example.com/a/c'' (Some ''image/png'')
     = Inr (''/srv/app/cache/example.com/http#$$example.com$a$c.png'',
            [''/srv/app/cache/example.com'' \<mapsto> Dir 1000])"
    by (simp add: gcp_simps)
  have "''/srv/app/cache/example.com/http#$$example.com$a$b.png''
     \<noteq> ''/srv/app/cache/example.com/http#$$example.com$a$c.png''"
    by (rule cache_path_distinct[OF _ _ _ 1 2]) simp_all
  with 1 2 show ?thesis by simp
qed

text \<open>
  C3 as stated fails: \<open>encode_url\<close> sends both \<open>/\<close> and \<open>$\<close> to \<open>$\<close>, and both \<open>:\<close> and \<open>#\<close>
  to \<open>#\<close>, so the two URLs of each pair below are distinct and get the same cache path.
\<close>

theorem cache_path_collision_counterexample:
  "''http://example.com/a/b'' \<noteq> ''http://example.com/a$b''
   \<and> map_sum id fst (get_cache_path sample_env Map.empty ''http://example.com/a/b'' None)
     = Inr ''/srv/app/cache/example.com/http#$$example.com$a$b.html''
   \<and> map_sum id fst (get_cache_path sample_env Map.empty ''http://example.com/a$b'' None)
     = Inr ''/srv/app/cache/example.com/http#$$example.com$a$b.html''
   \<and> ''http://example.com/a:b'' \<noteq> ''http://example.com/a#b''
   \<and> map_sum id fst (get_cache_path sample_env Map.empty ''http://example.com/a:b'' None)
     = Inr ''/srv/app/cache/example.com/http#$$example.com$a#b.html''
   \<and> map_sum id fst (get_cache_path sample_env Map.empty ''http://example.com/a#b'' None)
     = Inr ''/srv/app/cache/example.com/http#$$example.com$a#b.html''"
  by (simp add: gcp_simps)



section \<open>Positions in a document\<close>

lemma find_nonempty:
  "find_nodes P xs = Some p \<Longrightarrow> p \<noteq> []"
proof (induction xs arbitrary: p)
  case Nil
  then show ?case by simp
next
  case (Cons a xs)
  show ?case
  proof (cases "find_node P a")
    case None
    with Cons.prems obtain q where q: "find_nodes P xs = Some q" "p = bump q" by auto
    from Cons.IH[OF q(1)] obtain i r where "q = i # r" by (cases q) auto
    with q show ?thesis by simp
  next
    case (Some q)
    with Cons.prems show ?thesis by auto
  qed
qed

lemma find_node_at:
  "find_node P x = Some p \<Longrightarrow> \<exists>y. sub_node p x = Some y \<and> P y"
  "find_nodes P xs = Some p \<Longrightarrow> \<exists>y. node_at p xs = Some y \<and> P y"
proof (induction P x and P xs arbitrary: p and p rule: find_node_find_nodes.induct)
  case (1 P s)
  then show ?case by simp
next
  case (2 P n as cs)
  then show ?case
  proof (cases "P (Tag n as cs)")
    case True
    with 2 show ?thesis by auto
  next
    case False
    with 2 have f: "find_nodes P cs = Some p" by simp
    from find_nonempty[OF f] obtain i q where "p = i # q" by (cases p) auto
    with 2(1)[OF False f] show ?thesis by simp
  qed
next
  case (3 P)
  then show ?case by simp
next
  case (4 P x xs)
  show ?case
  proof (cases "find_node P x")
    case None
    with 4 obtain q where q: "find_nodes P xs = Some q" "p = bump q" by auto
    from find_nonempty[OF q(1)] obtain i r where "q = i # r" by (cases q) auto
    with 4(2)[OF None q(1)] q show ?thesis by simp
  next
    case (Some q)
    with 4 show ?thesis by auto
  qed
qed


lemma node_at_modify_same:
  "sub_node p x = Some y \<Longrightarrow> sub_node p (modify_node p g x) = Some (g y)"
  "node_at p xs = Some y \<Longrightarrow> node_at p (modify_at p g xs) = Some (g y)"
  by (induction p g x and p g xs rule: modify_node_modify_at.induct) auto

lemma find_modify_same:
  "tag_pred P \<Longrightarrow> find_node P x = Some p \<Longrightarrow> sub_node p x = Some y \<Longrightarrow> P (g y)
     \<Longrightarrow> (\<exists>n as cs. g y = Tag n as cs) \<Longrightarrow> find_node P (modify_node p g x) = Some p"
  "tag_pred P \<Longrightarrow> find_nodes P xs = Some p \<Longrightarrow> node_at p xs = Some y \<Longrightarrow> P (g y)
     \<Longrightarrow> (\<exists>n as cs. g y = Tag n as cs) \<Longrightarrow> find_nodes P (modify_at p g xs) = Some p"
proof (induction P x and P xs arbitrary: p and p rule: find_node_find_nodes.induct)
  case (1 P s)
  then show ?case by simp
next
  case (2 P n as cs)
  note tp = \<open>tag_pred P\<close>
  show ?case
  proof (cases "P (Tag n as cs)")
    case True
    with 2 have "p = []" by simp
    with 2 show ?thesis by auto
  next
    case False
    with 2 have f: "find_nodes P cs = Some p" by simp
    from find_nonempty[OF f] obtain i q where p: "p = i # q" by (cases p) auto
    from tp have "P (Tag n as (modify_at p g cs)) = P (Tag n as cs)"
      unfolding tag_pred_def by blast
    with False have nP: "\<not> P (Tag n as (modify_at p g cs))" by simp
    from 2(1)[OF False tp f] 2(4,5,6) p have "find_nodes P (modify_at p g cs) = Some p" by simp
    with nP p show ?thesis by simp
  qed
next
  case (3 P)
  then show ?case by simp
next
  case (4 P x xs)
  note tp = \<open>tag_pred P\<close>
  show ?case
  proof (cases "find_node P x")
    case None
    with 4 obtain q where q: "find_nodes P xs = Some q" "p = bump q" by auto
    from find_nonempty[OF q(1)] obtain i r where r: "q = i # r" by (cases q) auto
    with 4(2)[OF None tp q(1)] 4(5,6,7) q have "find_nodes P (modify_at q g xs) = Some q" by simp
    with None q r show ?thesis by simp
  next
    case (Some q)
    with 4 have p: "p = 0 # q" by simp
    with 4(1)[OF tp, of q] 4(5,6,7) Some have "find_node P (modify_node q g x) = Some q" by simp
    with p show ?thesis by simp
  qed
qed

lemma count_modify:
  assumes tp: "tag_pred P"
  shows "sub_node p x = Some y \<Longrightarrow>
           count_node P (modify_node p g x) + count_node P y = count_node P x + count_node P (g y)"
    and "node_at p xs = Some y \<Longrightarrow>
           count_nodes P (modify_at p g xs) + count_node P y = count_nodes P xs + count_node P (g y)"
proof (induction p g x and p g xs rule: modify_node_modify_at.induct)
  case (2 i p f n as cs)
  from tp have "P (Tag n as (modify_at (i # p) f cs)) = P (Tag n as cs)"
    unfolding tag_pred_def by blast
  with 2 show ?case by simp
qed auto

lemma count_sub_le:
  "sub_node p x = Some y \<Longrightarrow> count_node P y \<le> count_node P x"
  "node_at p xs = Some y \<Longrightarrow> count_node P y \<le> count_nodes P xs"
proof (induction p x and p xs rule: sub_node_node_at.induct)
qed (auto intro: le_trans trans_le_add1 trans_le_add2)

lemma find_None_count:
  "(find_node P x = None) = (count_node P x = 0)"
  "(find_nodes P xs = None) = (count_nodes P xs = 0)"
  by (induction P x and P xs rule: find_node_find_nodes.induct) (auto split: option.splits)

lemma find_skeleton:
  assumes "\<And>n as cs. P (Tag n as cs) = Q n"
  shows "find_node P (skeleton x) = find_node P x"
    and "find_nodes P (map skeleton xs) = find_nodes P xs"
  using assms
  by (induction P x and P xs rule: find_node_find_nodes.induct) (auto split: option.splits)

lemma count_skeleton:
  assumes "\<And>n as cs. P (Tag n as cs) = Q n"
  shows "count_node P (skeleton x) = count_node P x"
    and "count_nodes P (map skeleton xs) = count_nodes P xs"
  using assms
  by (induction P x and P xs rule: count_node_count_nodes.induct) auto

lemma map_tags_skeleton:
  "map_tags f x = Inr y \<Longrightarrow> skeleton y = skeleton x"
  "map_tags_list f xs = Inr ys \<Longrightarrow> map skeleton ys = map skeleton xs"
  by (induction f x and f xs arbitrary: y and ys rule: map_tags_map_tags_list.induct)
     (auto split: sum.splits)

lemma attr_only_skeleton: "attr_only g \<Longrightarrow> skeleton (g x) = skeleton x"
proof (cases x)
  case (Tag n as cs)
  assume "attr_only g"
  then obtain as' where "g (Tag n as cs) = Tag n as' cs" unfolding attr_only_def by blast
  with Tag show ?thesis by simp
next
  case (NavString s)
  assume "attr_only g"
  then have "g (NavString s) = NavString s" unfolding attr_only_def by blast
  with NavString show ?thesis by simp
qed

lemma modify_skeleton:
  "attr_only g \<Longrightarrow> skeleton (modify_node p g x) = skeleton x"
  "attr_only g \<Longrightarrow> map skeleton (modify_at p g xs) = map skeleton xs"
  by (induction p g x and p g xs rule: modify_node_modify_at.induct)
     (auto simp: attr_only_skeleton)

lemma attr_only_set_item: "attr_only (set_item k v)"
  by (simp add: attr_only_def set_item_def)

lemma tag_pred_is_tag: "tag_pred (is_tag name)"
  by (simp add: tag_pred_def is_tag_def)

lemma attr_only_sub:
  assumes "attr_only g"
  shows "sub_node (i # r) (g x) = sub_node (i # r) x"
proof (cases x)
  case (Tag n as cs)
  from assms obtain as' where "g (Tag n as cs) = Tag n as' cs" unfolding attr_only_def by blast
  with Tag show ?thesis by simp
next
  case (NavString s)
  from assms have "g (NavString s) = NavString s" unfolding attr_only_def by blast
  with NavString show ?thesis by simp
qed

lemma attr_only_shallow:
  "attr_only g \<Longrightarrow> p \<noteq> q \<Longrightarrow>
     map_option shallow (sub_node p (modify_node q g x)) = map_option shallow (sub_node p x)"
  "attr_only g \<Longrightarrow> p \<noteq> q \<Longrightarrow>
     map_option shallow (node_at p (modify_at q g xs)) = map_option shallow (node_at p xs)"
proof (induction q g x and q g xs arbitrary: p and p rule: modify_node_modify_at.induct)
  case (1 f x)
  then obtain i r where p: "p = i # r" by (cases p) auto
  with 1 show ?case by (simp add: attr_only_sub)
next
  case (2 i q f n as cs)
  then show ?case by (cases p) auto
next
  case (6 q f x xs)
  show ?case
  proof (cases p)
    case Nil
    then show ?thesis by simp
  next
    case (Cons j r)
    with 6 show ?thesis by (cases j) auto
  qed
next
  case (7 i q f x xs)
  show ?case
  proof (cases p)
    case Nil
    then show ?thesis by simp
  next
    case (Cons j r)
    with 7 show ?thesis by (cases j) auto
  qed
qed auto

lemma count_append: "count_nodes P (xs @ ys) = count_nodes P xs + count_nodes P ys"
  by (induction xs) auto

lemma find_same_skeleton:
  assumes "map skeleton a = map skeleton b"
  shows "find_nodes (is_tag name) a = find_nodes (is_tag name) b"
proof -
  have "find_nodes (is_tag name) (map skeleton a) = find_nodes (is_tag name) a"
    by (rule find_skeleton(2)[where Q = "\<lambda>n. n = name"]) (simp add: is_tag_def)
  moreover have "find_nodes (is_tag name) (map skeleton b) = find_nodes (is_tag name) b"
    by (rule find_skeleton(2)[where Q = "\<lambda>n. n = name"]) (simp add: is_tag_def)
  ultimately show ?thesis using assms by simp
qed

lemma first_tag_None: "first_tag name soup = None \<longleftrightarrow> find_nodes (is_tag name) soup = None"
proof (cases "find_nodes (is_tag name) soup")
  case None
  then show ?thesis by (simp add: first_tag_def)
next
  case (Some p)
  from find_node_at(2)[OF Some] Some show ?thesis by (auto simp: first_tag_def)
qed

lemma rewrite_links_skeleton:
  assumes "rewrite_links env base_url soup = Inr s"
  shows "map skeleton s = map skeleton soup"
  using assms unfolding rewrite_links_def
  by (auto split: sum.splits dest!: map_tags_skeleton(2))

lemma set_base_target_skeleton: "map skeleton (set_base_target s) = map skeleton s"
  by (simp add: set_base_target_def modify_skeleton attr_only_set_item split: option.splits)

lemma swap_stylesheets_skeleton:
  assumes "swap_stylesheets s = Inr s'"
  shows "map skeleton s' = map skeleton s"
  using assms
  by (auto simp: swap_stylesheets_def modify_skeleton attr_only_set_item split: option.splits)

lemma stages:
  assumes "rewrite_soup env base_url soup = Inr soup'"
  obtains s1 s2 where "rewrite_links env base_url soup = Inr s1"
    and "swap_stylesheets (set_base_target s1) = Inr s2" and "soup' = insert_base s2"
    and "map skeleton s1 = map skeleton soup" and "map skeleton s2 = map skeleton soup"
proof -
  from assms obtain s1 s2 where 1: "rewrite_links env base_url soup = Inr s1"
    and 2: "swap_stylesheets (set_base_target s1) = Inr s2" and 3: "soup' = insert_base s2"
    by (auto simp: rewrite_soup_def split: sum.splits)
  from rewrite_links_skeleton[OF 1] have 4: "map skeleton s1 = map skeleton soup" .
  from swap_stylesheets_skeleton[OF 2] set_base_target_skeleton[of s1] 4
  have 5: "map skeleton s2 = map skeleton soup" by simp
  from 1 2 3 4 5 that show ?thesis by blast
qed

lemma insert_into_first:
  assumes nb: "find_nodes (is_tag ''base'') s = None"
    and h: "find_nodes (is_tag name) s = Some p"
    and g: "\<And>as cs. g (Tag name as cs) = Tag name as (front @ cs @ back)"
    and cnt: "count_nodes (is_tag ''base'') (front @ back) = 1"
    and name: "name \<noteq> ''base''"
  shows "\<exists>as cs. first_tag name (modify_at p g s) = Some (Tag name as (front @ cs @ back))
           \<and> count_nodes (is_tag ''base'') (modify_at p g s) = 1"
proof -
  from find_node_at(2)[OF h] obtain x where x: "node_at p s = Some x" "is_tag name x" by blast
  then obtain as cs where xt: "x = Tag name as cs" by (cases x) (auto simp: is_tag_def)
  have gx: "g x = Tag name as (front @ cs @ back)" using g xt by simp
  have f: "find_nodes (is_tag name) (modify_at p g s) = Some p"
    by (rule find_modify_same(2)[OF tag_pred_is_tag h x(1)]) (simp_all add: gx is_tag_def)
  have n: "node_at p (modify_at p g s) = Some (g x)"
    by (rule node_at_modify_same(2)[OF x(1)])
  from f n gx have ft: "first_tag name (modify_at p g s) = Some (Tag name as (front @ cs @ back))"
    by (simp add: first_tag_def)
  have c0: "count_nodes (is_tag ''base'') s = 0" using nb by (simp add: find_None_count(2))
  with count_sub_le(2)[OF x(1), of "is_tag ''base''"] have cx: "count_node (is_tag ''base'') x = 0"
    by simp
  with xt have ccs: "count_nodes (is_tag ''base'') cs = 0" by simp
  have cg: "count_node (is_tag ''base'') (g x) = 1"
    using cnt ccs name by (simp add: gx count_append is_tag_def)
  from count_modify(2)[OF tag_pred_is_tag x(1), of "''base''" g] c0 cx cg
  have "count_nodes (is_tag ''base'') (modify_at p g s) = 1" by simp
  with ft show ?thesis by blast
qed

lemma insert_base_head:
  assumes nb: "find_nodes (is_tag ''base'') s = None"
    and h: "find_nodes (is_tag ''head'') s = Some p"
  shows "\<exists>as cs. first_tag ''head'' (insert_base s)
              = Some (Tag ''head'' as (new_base_tag # cs @ [meta_tag]))
           \<and> count_nodes (is_tag ''base'') (insert_base s) = 1"
proof -
  let ?g = "\<lambda>h. append_child meta_tag (insert_first new_base_tag h)"
  have ib: "insert_base s = modify_at p ?g s" using nb h by (simp add: insert_base_def)
  have "\<exists>as cs. first_tag ''head'' (modify_at p ?g s)
            = Some (Tag ''head'' as ([new_base_tag] @ cs @ [meta_tag]))
           \<and> count_nodes (is_tag ''base'') (modify_at p ?g s) = 1"
    by (rule insert_into_first[OF nb h])
       (simp_all add: append_child_def insert_first_def new_base_tag_def meta_tag_def is_tag_def)
  with ib show ?thesis by simp
qed

lemma insert_base_html:
  assumes nb: "find_nodes (is_tag ''base'') s = None"
    and nh: "find_nodes (is_tag ''head'') s = None"
    and h: "find_nodes (is_tag ''html'') s = Some p"
  shows "\<exists>as cs. first_tag ''html'' (insert_base s)
              = Some (Tag ''html'' as (Tag ''head'' [] [new_base_tag] # cs))
           \<and> count_nodes (is_tag ''base'') (insert_base s) = 1"
proof -
  let ?g = "insert_first (Tag ''head'' [] [new_base_tag])"
  have ib: "insert_base s = modify_at p ?g s" using nb nh h by (simp add: insert_base_def)
  have "\<exists>as cs. first_tag ''html'' (modify_at p ?g s)
            = Some (Tag ''html'' as ([Tag ''head'' [] [new_base_tag]] @ cs @ []))
           \<and> count_nodes (is_tag ''base'') (modify_at p ?g s) = 1"
    by (rule insert_into_first[OF nb h])
       (simp_all add: insert_first_def new_base_tag_def is_tag_def)
  with ib show ?thesis by simp
qed


section \<open>The base tag and the viewport tag\<close>

lemmas soup_simps =
  rewrite_soup_def rewrite_links_def a_body_def img_body_def link_body_def script_body_def
  form_body_def rewrite_attr_def rewrite_val_def rel_has_stylesheet_def set_base_target_def
  swap_stylesheets_def insert_base_def is_tag_def is_link_rel_def attr_matches_def
  insert_first_def append_child_def new_base_tag_def meta_tag_def first_tag_def set_item_def
  rewrite_url_def rewrite_srcset_def rewrite_candidate_def strip_def isspace_def


lemma shallow_name:
  assumes "map_option shallow a = map_option shallow b" "a = Some (Tag n as cs)"
  shows "\<exists>cs'. b = Some (Tag n as cs')"
proof -
  from assms obtain y where y: "b = Some y" "shallow y = Tag n as []" by (cases b) auto
  then show ?thesis by (cases y) auto
qed

lemma link_path_differs:
  assumes "find_nodes (is_link_rel v) s = Some q" and "node_at p s = Some (Tag ''base'' as cs)"
  shows "p \<noteq> q"
proof
  assume "p = q"
  with find_node_at(2)[OF assms(1)] assms(2) have "is_link_rel v (Tag ''base'' as cs)" by simp
  then show False by (simp add: is_link_rel_def)
qed

lemma swap_keeps_base:
  assumes sw: "swap_stylesheets s = Inr s'" and b: "node_at p s = Some (Tag ''base'' as cs)"
  shows "\<exists>cs'. node_at p s' = Some (Tag ''base'' as cs')"
proof (cases "find_nodes (is_link_rel ''stylesheet alternate'') s")
  case None
  with sw b show ?thesis by (simp add: swap_stylesheets_def)
next
  case (Some q2)
  with sw obtain q1 where q1: "find_nodes (is_link_rel ''stylesheet'') s = Some q1"
    and s': "s' = modify_at q2 (set_item ''rel'' (Str ''stylesheet''))
                   (modify_at q1 (set_item ''rel'' (Str ''ONZIN'')) s)"
    by (auto simp: swap_stylesheets_def split: option.splits)
  from link_path_differs[OF q1 b] have n1: "p \<noteq> q1" .
  from link_path_differs[OF Some b] have n2: "p \<noteq> q2" .
  have "map_option shallow (node_at p s') = map_option shallow (node_at p s)"
    unfolding s' using attr_only_shallow(2)[OF attr_only_set_item n1] attr_only_shallow(2)[OF attr_only_set_item n2]
    by simp
  then have "map_option shallow (node_at p s) = map_option shallow (node_at p s')" by simp
  from shallow_name[OF this b] show ?thesis .
qed

lemma existing_base:
  assumes r: "rewrite_soup env base_url soup = Inr soup'"
    and b: "find_nodes (is_tag ''base'') soup = Some p"
  shows "(\<exists>as cs. first_tag ''base'' soup' = Some (Tag ''base'' as cs)
            \<and> map_of as ''target'' = Some (Str ''_self''))
         \<and> map skeleton soup' = map skeleton soup"
proof -
  from r obtain s1 s2 where s1: "rewrite_links env base_url soup = Inr s1"
    and s2: "swap_stylesheets (set_base_target s1) = Inr s2" and s': "soup' = insert_base s2"
    and e1: "map skeleton s1 = map skeleton soup" and e2: "map skeleton s2 = map skeleton soup"
    by (rule stages)
  from find_same_skeleton[OF e1, of "''base''"] b have b1: "find_nodes (is_tag ''base'') s1 = Some p"
    by simp
  from find_same_skeleton[OF e2, of "''base''"] b have b2: "find_nodes (is_tag ''base'') s2 = Some p"
    by simp
  from find_node_at(2)[OF b1] obtain x where x: "node_at p s1 = Some x" "is_tag ''base'' x" by blast
  then obtain as cs where xt: "x = Tag ''base'' as cs" by (cases x) (auto simp: is_tag_def)
  have sb: "set_base_target s1 = modify_at p (set_item ''target'' (Str ''_self'')) s1"
    using b1 by (simp add: set_base_target_def)
  have "node_at p (set_base_target s1)
      = Some (Tag ''base'' (AList.update ''target'' (Str ''_self'') as) cs)"
    unfolding sb using node_at_modify_same(2)[OF x(1)] xt by (simp add: set_item_def)
  from swap_keeps_base[OF s2 this] obtain cs' where
    n: "node_at p s2 = Some (Tag ''base'' (AList.update ''target'' (Str ''_self'') as) cs')" ..
  have same: "soup' = s2" using s' b2 by (simp add: insert_base_def)
  have "first_tag ''base'' soup'
      = Some (Tag ''base'' (AList.update ''target'' (Str ''_self'') as) cs')"
    using same b2 n by (simp add: first_tag_def)
  moreover have "map_of (AList.update ''target'' (Str ''_self'') as) ''target'' = Some (Str ''_self'')"
    by (simp add: update_conv')
  ultimately show ?thesis using same e2 by blast
qed

text \<open>
  C5, as the code has it, for every parsed document on which \<open>rewrite_html\<close>'s tree
  rewriting returns. If the document has no base tag and has a head, the output has exactly
  one base tag, the new tag with \<open>target="_self"\<close>, as the first child of the first head,
  and the viewport meta tag is the last child of that head. If it has no base tag and no
  head but an html tag, a new head whose only child is the new base tag is the first child
  of the first html tag, and the output has exactly one base tag. If the document has a base
  tag, its first base tag gets \<open>target="_self"\<close> and no tag is added or removed.
\<close>

theorem base_tag_inserted:
  assumes r: "rewrite_soup env base_url soup = Inr soup'"
  shows "(first_tag ''base'' soup = None \<and> first_tag ''head'' soup \<noteq> None \<longrightarrow>
            (\<exists>as cs. first_tag ''head'' soup'
                 = Some (Tag ''head'' as (new_base_tag # cs @ [meta_tag])))
            \<and> count_nodes (is_tag ''base'') soup' = 1)
       \<and> (first_tag ''base'' soup = None \<and> first_tag ''head'' soup = None
            \<and> first_tag ''html'' soup \<noteq> None \<longrightarrow>
            (\<exists>as cs. first_tag ''html'' soup'
                 = Some (Tag ''html'' as (Tag ''head'' [] [new_base_tag] # cs)))
            \<and> count_nodes (is_tag ''base'') soup' = 1)
       \<and> (first_tag ''base'' soup \<noteq> None \<longrightarrow>
            (\<exists>as cs. first_tag ''base'' soup' = Some (Tag ''base'' as cs)
                 \<and> map_of as ''target'' = Some (Str ''_self''))
            \<and> map skeleton soup' = map skeleton soup)"
proof -
  from r obtain s1 s2 where s': "soup' = insert_base s2"
    and e2: "map skeleton s2 = map skeleton soup"
    by (rule stages)
  note fe = find_same_skeleton[OF e2]
  have a: "\<exists>as cs. first_tag ''head'' soup' = Some (Tag ''head'' as (new_base_tag # cs @ [meta_tag]))
            \<and> count_nodes (is_tag ''base'') soup' = 1"
    if "first_tag ''base'' soup = None" "first_tag ''head'' soup \<noteq> None"
  proof -
    from that fe obtain p where "find_nodes (is_tag ''base'') s2 = None"
      "find_nodes (is_tag ''head'') s2 = Some p" by (auto simp: first_tag_None)
    from insert_base_head[OF this] s' show ?thesis by simp
  qed
  have b: "\<exists>as cs. first_tag ''html'' soup' = Some (Tag ''html'' as (Tag ''head'' [] [new_base_tag] # cs))
            \<and> count_nodes (is_tag ''base'') soup' = 1"
    if "first_tag ''base'' soup = None" "first_tag ''head'' soup = None"
      "first_tag ''html'' soup \<noteq> None"
  proof -
    from that fe obtain p where "find_nodes (is_tag ''base'') s2 = None"
      "find_nodes (is_tag ''head'') s2 = None"
      "find_nodes (is_tag ''html'') s2 = Some p" by (auto simp: first_tag_None)
    from insert_base_html[OF this] s' show ?thesis by simp
  qed
  have c: "(\<exists>as cs. first_tag ''base'' soup' = Some (Tag ''base'' as cs)
                 \<and> map_of as ''target'' = Some (Str ''_self''))
            \<and> map skeleton soup' = map skeleton soup"
    if "first_tag ''base'' soup \<noteq> None"
  proof -
    from that obtain p where "find_nodes (is_tag ''base'') soup = Some p"
      by (auto simp: first_tag_None)
    from existing_base[OF r this] show ?thesis .
  qed
  from a b c show ?thesis by blast
qed

theorem base_tag_inserted_witness:
  "rewrite_soup sample_env ''https://example.com/bar'' soup_with_head
     = Inr [Tag ''html'' []
        [Tag ''head'' []
           [new_base_tag, Tag ''title'' [] [NavString ''t''], meta_tag],
         Tag ''body'' []
           [Tag ''a'' [(''href'', Str ''/cachingproxy/proxy?url=https%3A//example.com/foo'')]
              [NavString ''x'']]]]
   \<and> rewrite_soup sample_env ''https://example.com/bar'' soup_without_head
     = Inr [Tag ''html'' [] [Tag ''head'' [] [new_base_tag], Tag ''body'' [] [NavString ''x'']]]
   \<and> rewrite_soup sample_env ''https://example.com/bar'' soup_with_base
     = Inr [Tag ''html'' []
        [Tag ''head'' []
           [Tag ''base'' [(''href'', Str ''https://example.com/''), (''target'', Str ''_self'')] []]]]"
proof -
  have 1: "rewrite_soup sample_env ''https://example.com/bar'' soup_with_head
     = Inr [Tag ''html'' []
        [Tag ''head'' []
           [new_base_tag, Tag ''title'' [] [NavString ''t''], meta_tag],
         Tag ''body'' []
           [Tag ''a'' [(''href'', Str ''/cachingproxy/proxy?url=https%3A//example.com/foo'')]
              [NavString ''x'']]]]"
    by (simp add: soup_with_head_def soup_simps sample_simps)
  have 2: "rewrite_soup sample_env ''https://example.com/bar'' soup_without_head
     = Inr [Tag ''html'' [] [Tag ''head'' [] [new_base_tag], Tag ''body'' [] [NavString ''x'']]]"
    by (simp add: soup_without_head_def soup_simps sample_simps)
  have 3: "rewrite_soup sample_env ''https://example.com/bar'' soup_with_base
     = Inr [Tag ''html'' []
        [Tag ''head'' []
           [Tag ''base'' [(''href'', Str ''https://example.com/''), (''target'', Str ''_self'')] []]]]"
    by (simp add: soup_with_base_def soup_simps sample_simps)
  from base_tag_inserted[OF 1] base_tag_inserted[OF 2] base_tag_inserted[OF 3] 1 2 3
  show ?thesis by simp
qed

text \<open>
  C5 as stated fails. The fragment \<open><p>hi</p>\<close> has neither head nor html tag, and its
  output has no base tag. The document \<open><html><body>x</body></html>\<close> gets a new head that
  holds the base tag only, and the document whose head already holds a base tag gets nothing
  inserted: neither output has a meta tag.
\<close>

theorem base_tag_counterexample:
  "rewrite_soup sample_env ''https://example.com/bar'' soup_fragment = Inr soup_fragment
   \<and> count_nodes (is_tag ''base'') soup_fragment = 0
   \<and> rewrite_soup sample_env ''https://example.com/bar'' soup_without_head
     = Inr [Tag ''html'' []
              [Tag ''head'' [] [Tag ''base'' [(''target'', Str ''_self'')] []],
               Tag ''body'' [] [NavString ''x'']]]
   \<and> count_nodes (is_tag ''meta'')
       [Tag ''html'' []
          [Tag ''head'' [] [Tag ''base'' [(''target'', Str ''_self'')] []],
           Tag ''body'' [] [NavString ''x'']]] = 0
   \<and> rewrite_soup sample_env ''https://example.com/bar'' soup_with_base
     = Inr [Tag ''html'' []
        [Tag ''head'' []
           [Tag ''base'' [(''href'', Str ''https://example.com/''), (''target'', Str ''_self'')] []]]]
   \<and> count_nodes (is_tag ''meta'')
       [Tag ''html'' []
        [Tag ''head'' []
           [Tag ''base'' [(''href'', Str ''https://example.com/''), (''target'', Str ''_self'')] []]]] = 0"
  by (simp add: soup_fragment_def soup_without_head_def soup_with_base_def soup_simps sample_simps)


section \<open>The \<open>srcset\<close> attribute\<close>

lemma split_chr_nonempty: "split_chr sep s \<noteq> []"
  by (induction s) (auto split: list.splits)

lemma map_err_all2:
  "map_err f xs = Inr ys \<Longrightarrow> list_all2 (\<lambda>x y. f x = Inr y) xs ys"
  by (induction xs arbitrary: ys) (auto split: sum.splits)

lemma rewrite_candidate_Inr:
  assumes "rewrite_candidate env base_url c = Inr r"
  shows "\<exists>p ps p'. split_chr CHR '' '' (strip c) = p # ps
           \<and> rewrite_url env p base_url = Inr p' \<and> r = join '' '' (p' # ps)"
  using assms split_chr_nonempty[of "CHR '' ''" "strip c"]
  by (auto simp: rewrite_candidate_def split: list.splits sum.splits)

lemma rewrite_srcset_Inr:
  assumes "rewrite_srcset env base_url v = Inr v'"
  shows "\<exists>rs. v' = join '', '' rs
           \<and> list_all2 (\<lambda>c r. \<exists>p ps p'. split_chr CHR '' '' (strip c) = p # ps
                  \<and> rewrite_url env p base_url = Inr p' \<and> r = join '' '' (p' # ps))
                (split_chr CHR '','' v) rs"
proof -
  from assms obtain rs where rs: "map_err (rewrite_candidate env base_url) (split_chr CHR '','' v) = Inr rs"
    and v': "v' = join '', '' rs"
    by (auto simp: rewrite_srcset_def split: sum.splits)
  from map_err_all2[OF rs]
  have "list_all2 (\<lambda>c r. \<exists>p ps p'. split_chr CHR '' '' (strip c) = p # ps
                  \<and> rewrite_url env p base_url = Inr p' \<and> r = join '' '' (p' # ps))
                (split_chr CHR '','' v) rs"
    by (rule list_all2_mono) (rule rewrite_candidate_Inr)
  with v' show ?thesis by blast
qed

lemma img_body_srcset:
  assumes body: "img_body env base_url ''img'' as = Inr as'"
  shows "(\<forall>v. map_of as ''src'' \<noteq> None \<and> map_of as ''srcset'' = Some (Str v) \<and> v \<noteq> [] \<longrightarrow>
            (\<exists>rs. map_of as' ''srcset'' = Some (Str (join '', '' rs))
               \<and> list_all2 (\<lambda>c r. \<exists>p ps p'. split_chr CHR '' '' (strip c) = p # ps
                      \<and> rewrite_url env p base_url = Inr p' \<and> r = join '' '' (p' # ps))
                    (split_chr CHR '','' v) rs))
       \<and> (map_of as ''src'' = None \<longrightarrow> as' = as)"
proof -
  have a: "\<exists>rs. map_of as' ''srcset'' = Some (Str (join '', '' rs))
               \<and> list_all2 (\<lambda>c r. \<exists>p ps p'. split_chr CHR '' '' (strip c) = p # ps
                      \<and> rewrite_url env p base_url = Inr p' \<and> r = join '' '' (p' # ps))
                    (split_chr CHR '','' v) rs"
    if src: "map_of as ''src'' \<noteq> None" and ss: "map_of as ''srcset'' = Some (Str v)"
      and v: "v \<noteq> []" for v
  proof -
    from body src obtain as1 where as1: "rewrite_attr env base_url ''src'' as = Inr as1"
      by (auto simp: img_body_def split: sum.splits)
    then obtain w where "as1 = AList.update ''src'' w as"
      by (auto simp: rewrite_attr_def split: option.splits sum.splits)
    with ss have ss1: "map_of as1 ''srcset'' = Some (Str v)" by (simp add: update_conv')
    from body src as1 ss1 v obtain v' where v': "rewrite_srcset env base_url v = Inr v'"
      and as': "as' = AList.update ''srcset'' (Str v') as1"
      by (auto simp: img_body_def split: sum.splits)
    from as' have "map_of as' ''srcset'' = Some (Str v')" by (simp add: update_conv')
    with rewrite_srcset_Inr[OF v'] show ?thesis by auto
  qed
  have b: "as' = as" if "map_of as ''src'' = None"
    using body that by (simp add: img_body_def)
  from a b show ?thesis by blast
qed

lemma tags_of_list_append:
  "tags_of_list name (xs @ ys) = tags_of_list name xs @ tags_of_list name ys"
  by (induction xs) auto

lemma map_tags_tags_of:
  "map_tags f x = Inr y \<Longrightarrow>
     list_all2 (\<lambda>as as'. f name as = Inr as') (tags_of name x) (tags_of name y)"
  "map_tags_list f xs = Inr ys \<Longrightarrow>
     list_all2 (\<lambda>as as'. f name as = Inr as') (tags_of_list name xs) (tags_of_list name ys)"
  by (induction f x and f xs arbitrary: y and ys rule: map_tags_map_tags_list.induct)
     (auto split: sum.splits intro!: list_all2_appendI)

lemma all2_same: "list_all2 (\<lambda>a b. b = a) xs ys \<Longrightarrow> ys = xs"
  by (induction rule: list_all2_induct) auto

lemma map_tags_other:
  assumes "map_tags_list f xs = Inr ys" and "\<And>as as'. f name as = Inr as' \<Longrightarrow> as' = as"
  shows "tags_of_list name ys = tags_of_list name xs"
proof -
  from map_tags_tags_of(2)[OF assms(1), of name]
  have "list_all2 (\<lambda>as as'. as' = as) (tags_of_list name xs) (tags_of_list name ys)"
    by (rule list_all2_mono) (auto dest: assms(2))
  then show ?thesis by (rule all2_same)
qed

lemma tags_modify:
  "sub_node p x = Some y \<Longrightarrow> tags_of name (g y) = tags_of name y
     \<Longrightarrow> tags_of name (modify_node p g x) = tags_of name x"
  "node_at p xs = Some y \<Longrightarrow> tags_of name (g y) = tags_of name y
     \<Longrightarrow> tags_of_list name (modify_at p g xs) = tags_of_list name xs"
  by (induction p g x and p g xs rule: modify_node_modify_at.induct) auto

lemma node_at_skeleton:
  "sub_node p (skeleton x) = map_option skeleton (sub_node p x)"
  "node_at p (map skeleton xs) = map_option skeleton (node_at p xs)"
  by (induction p x and p xs rule: sub_node_node_at.induct) auto

lemma set_item_other:
  assumes "node_at p xs = Some (Tag n as cs)" "n \<noteq> name"
  shows "tags_of_list name (modify_at p (set_item k v) xs) = tags_of_list name xs"
  by (rule tags_modify(2)[OF assms(1)]) (simp add: set_item_def assms(2))

lemma set_base_target_tags:
  assumes "name \<noteq> ''base''"
  shows "tags_of_list name (set_base_target s) = tags_of_list name s"
proof (cases "find_nodes (is_tag ''base'') s")
  case None
  then show ?thesis by (simp add: set_base_target_def)
next
  case (Some p)
  from find_node_at(2)[OF Some] obtain y where y: "node_at p s = Some y" "is_tag ''base'' y" by blast
  then obtain as cs where "y = Tag ''base'' as cs" by (cases y) (auto simp: is_tag_def)
  with y assms Some show ?thesis by (simp add: set_base_target_def set_item_other)
qed

lemma link_node:
  assumes "find_nodes (is_link_rel v) s = Some q"
  shows "\<exists>as cs. node_at q s = Some (Tag ''link'' as cs)"
proof -
  from find_node_at(2)[OF assms] obtain y where y: "node_at q s = Some y" "is_link_rel v y" by blast
  then show ?thesis by (cases y) (auto simp: is_link_rel_def)
qed

lemma same_skeleton_name:
  assumes "map skeleton a = map skeleton b" and "node_at q b = Some (Tag n as cs)"
  shows "\<exists>as' cs'. node_at q a = Some (Tag n as' cs')"
proof -
  from assms node_at_skeleton(2)[of q a] node_at_skeleton(2)[of q b]
  have "map_option skeleton (node_at q a) = Some (Tag n [] (map skeleton cs))" by simp
  then obtain y where y: "node_at q a = Some y" "skeleton y = Tag n [] (map skeleton cs)"
    by (cases "node_at q a") auto
  then show ?thesis by (cases y) auto
qed

lemma swap_stylesheets_tags:
  assumes sw: "swap_stylesheets s = Inr s'" and name: "name \<noteq> ''link''"
  shows "tags_of_list name s' = tags_of_list name s"
proof (cases "find_nodes (is_link_rel ''stylesheet alternate'') s")
  case None
  with sw show ?thesis by (simp add: swap_stylesheets_def)
next
  case (Some q2)
  with sw obtain q1 where q1: "find_nodes (is_link_rel ''stylesheet'') s = Some q1"
    and s': "s' = modify_at q2 (set_item ''rel'' (Str ''stylesheet''))
                   (modify_at q1 (set_item ''rel'' (Str ''ONZIN'')) s)"
    by (auto simp: swap_stylesheets_def split: option.splits)
  let ?m = "modify_at q1 (set_item ''rel'' (Str ''ONZIN'')) s"
  from link_node[OF q1] obtain as1 cs1 where n1: "node_at q1 s = Some (Tag ''link'' as1 cs1)"
    by blast
  from link_node[OF Some] obtain as2 cs2 where n2: "node_at q2 s = Some (Tag ''link'' as2 cs2)"
    by blast
  have "map skeleton ?m = map skeleton s" by (simp add: modify_skeleton attr_only_set_item)
  from same_skeleton_name[OF this n2] obtain as3 cs3 where
    n3: "node_at q2 ?m = Some (Tag ''link'' as3 cs3)" by blast
  have "tags_of_list name s' = tags_of_list name ?m"
    unfolding s' using n3 name by (intro set_item_other) auto
  also have "\<dots> = tags_of_list name s"
    using n1 name by (intro set_item_other) auto
  finally show ?thesis .
qed

lemma insert_base_tags:
  assumes "name \<noteq> ''base''" "name \<noteq> ''meta''" "name \<noteq> ''head''"
  shows "tags_of_list name (insert_base s) = tags_of_list name s"
proof (cases "find_nodes (is_tag ''base'') s = None")
  case False
  then have "insert_base s = s" unfolding insert_base_def by (rule if_not_P)
  then show ?thesis by simp
next
  case True
  show ?thesis
  proof (cases "find_nodes (is_tag ''head'') s")
    case (Some p)
    from find_node_at(2)[OF Some] obtain y where y: "node_at p s = Some y" "is_tag ''head'' y"
      by blast
    have "tags_of name (append_child meta_tag (insert_first new_base_tag y)) = tags_of name y"
      using assms
      by (cases y)
         (auto simp: append_child_def insert_first_def new_base_tag_def meta_tag_def
            tags_of_list_append)
    from tags_modify(2)[OF y(1), of name "\<lambda>h. append_child meta_tag (insert_first new_base_tag h)",
        OF this]
    have "tags_of_list name
            (modify_at p (\<lambda>h. append_child meta_tag (insert_first new_base_tag h)) s)
        = tags_of_list name s" .
    with True Some show ?thesis by (simp add: insert_base_def)
  next
    case None
    show ?thesis
    proof (cases "find_nodes (is_tag ''html'') s")
      case (Some p)
      from find_node_at(2)[OF Some] obtain y where y: "node_at p s = Some y" by blast
      have "tags_of name (insert_first (Tag ''head'' [] [new_base_tag]) y) = tags_of name y"
        using assms by (cases y) (auto simp: insert_first_def new_base_tag_def)
      from tags_modify(2)[OF y(1), of name "insert_first (Tag ''head'' [] [new_base_tag])", OF this]
      have "tags_of_list name (modify_at p (insert_first (Tag ''head'' [] [new_base_tag])) s)
          = tags_of_list name s" .
      with True None Some show ?thesis by (simp add: insert_base_def)
    next
      case n: None
      with True None show ?thesis by (simp add: insert_base_def)
    qed
  qed
qed


text \<open>
  C8, as the code has it, for every parsed document on which the tree rewriting returns. The
  \<open>img\<close> tags of the output are those of the input, one for one in document order. For an
  \<open>img\<close> tag that has a \<open>src\<close> attribute and a non-empty \<open>srcset\<close>, the value is split at
  commas; each candidate is stripped and split at single spaces; the first piece is rewritten
  by \<open>rewrite_url\<close> and the other pieces are kept, in order; the pieces are joined by a
  space and the candidates by a comma and a space. An \<open>img\<close> tag without \<open>src\<close> keeps all
  its attributes. (When \<open>rewrite_url\<close> raises on a piece, the rewriting raises.)
\<close>

theorem srcset_rewritten:
  assumes r: "rewrite_soup env base_url soup = Inr soup'"
  shows "list_all2
           (\<lambda>as as'.
              (\<forall>v. map_of as ''src'' \<noteq> None \<and> map_of as ''srcset'' = Some (Str v) \<and> v \<noteq> [] \<longrightarrow>
                 (\<exists>rs. map_of as' ''srcset'' = Some (Str (join '', '' rs))
                    \<and> list_all2
                         (\<lambda>c r. \<exists>p ps p'. split_chr CHR '' '' (strip c) = p # ps
                            \<and> rewrite_url env p base_url = Inr p' \<and> r = join '' '' (p' # ps))
                         (split_chr CHR '','' v) rs))
              \<and> (map_of as ''src'' = None \<longrightarrow> as' = as))
           (tags_of_list ''img'' soup) (tags_of_list ''img'' soup')"
proof -
  from r obtain l s2 where l: "rewrite_links env base_url soup = Inr l"
    and s2: "swap_stylesheets (set_base_target l) = Inr s2" and s': "soup' = insert_base s2"
    by (auto simp: rewrite_soup_def split: sum.splits)
  from l obtain t1 t2 t3 t4 where
    t1: "map_tags_list (a_body env base_url) soup = Inr t1"
    and t2: "map_tags_list (img_body env base_url) t1 = Inr t2"
    and t3: "map_tags_list (link_body env base_url) t2 = Inr t3"
    and t4: "map_tags_list (script_body env base_url) t3 = Inr t4"
    and t5: "map_tags_list (form_body env base_url) t4 = Inr l"
    by (auto simp: rewrite_links_def split: sum.splits)
  have e1: "tags_of_list ''img'' t1 = tags_of_list ''img'' soup"
    by (rule map_tags_other[OF t1]) (simp add: a_body_def)
  have e3: "tags_of_list ''img'' t3 = tags_of_list ''img'' t2"
    by (rule map_tags_other[OF t3]) (simp add: link_body_def)
  have e4: "tags_of_list ''img'' t4 = tags_of_list ''img'' t3"
    by (rule map_tags_other[OF t4]) (simp add: script_body_def)
  have e5: "tags_of_list ''img'' l = tags_of_list ''img'' t4"
    by (rule map_tags_other[OF t5]) (simp add: form_body_def)
  have e6: "tags_of_list ''img'' s2 = tags_of_list ''img'' l"
    using swap_stylesheets_tags[OF s2, of "''img''"] set_base_target_tags[of "''img''" l] by simp
  have e7: "tags_of_list ''img'' soup' = tags_of_list ''img'' s2"
    unfolding s' by (rule insert_base_tags) simp_all
  from e3 e4 e5 e6 e7 have out: "tags_of_list ''img'' soup' = tags_of_list ''img'' t2" by simp
  from map_tags_tags_of(2)[OF t2, of "''img''"]
  have "list_all2 (\<lambda>as as'. img_body env base_url ''img'' as = Inr as')
          (tags_of_list ''img'' soup) (tags_of_list ''img'' soup')"
    unfolding out e1 .
  then show ?thesis
    by (rule list_all2_mono) (rule img_body_srcset)
qed

theorem srcset_rewritten_witness:
  "rewrite_soup sample_env ''https://example.com/'' soup_with_imgs
     = Inr [Tag ''html'' []
             [Tag ''head'' [] [new_base_tag],
              Tag ''body'' []
                [Tag ''img''
                   [(''src'', Str ''/cachingproxy/proxy?url=https%3A//example.com/a.png''),
                    (''srcset'', Str (join '', ''
                       [''/cachingproxy/proxy?url=https%3A//example.com/a.png 1x'',
                        ''/cachingproxy/proxy?url=https%3A//example.com/b.png 2x'']))] [],
                 Tag ''img'' [(''srcset'', Str ''a.png 1x, b.png 2x'')] []]]]
   \<and> tags_of_list ''img'' soup_with_imgs
     = [[(''src'', Str ''a.png''), (''srcset'', Str ''a.png 1x, b.png 2x'')],
        [(''srcset'', Str ''a.png 1x, b.png 2x'')]]"
proof -
  have 1: "rewrite_soup sample_env ''https://example.com/'' soup_with_imgs
     = Inr [Tag ''html'' []
             [Tag ''head'' [] [new_base_tag],
              Tag ''body'' []
                [Tag ''img''
                   [(''src'', Str ''/cachingproxy/proxy?url=https%3A//example.com/a.png''),
                    (''srcset'', Str (join '', ''
                       [''/cachingproxy/proxy?url=https%3A//example.com/a.png 1x'',
                        ''/cachingproxy/proxy?url=https%3A//example.com/b.png 2x'']))] [],
                 Tag ''img'' [(''srcset'', Str ''a.png 1x, b.png 2x'')] []]]]"
    by (simp add: soup_with_imgs_def soup_simps sample_simps)
  have 2: "tags_of_list ''img'' soup_with_imgs
     = [[(''src'', Str ''a.png''), (''srcset'', Str ''a.png 1x, b.png 2x'')],
        [(''srcset'', Str ''a.png 1x, b.png 2x'')]]"
    by (simp add: soup_with_imgs_def)
  from srcset_rewritten[OF 1] 1 2 show ?thesis by simp
qed

text \<open>
  The rewriting does not return for every document: \<open>urljoin\<close> raises on the piece \<open>//[\<close>,
  and so does the rewriting of a document whose \<open>img\<close> tag has it in \<open>srcset\<close>.
\<close>

lemma srcset_raises:
  "rewrite_soup sample_env ''https://example.com/''
       [Tag ''img'' [(''src'', Str ''a.png''), (''srcset'', Str ''//[ 1x'')] []]
     = Inl (ValueError ''Invalid IPv6 URL'')"
  by (simp add: soup_simps sample_simps)

text \<open>
  C8 as stated fails. The tag \<open><img srcset="a.png 1x, b.png 2x">\<close> has no \<open>src\<close>, so its
  \<open>srcset\<close> is not rewritten. A candidate whose descriptor follows a tab is not split:
  the descriptor is encoded into the URL.
\<close>

theorem srcset_counterexample:
  "rewrite_soup sample_env ''https://example.com/''
       [Tag ''img'' [(''srcset'', Str ''a.png 1x, b.png 2x'')] []]
     = Inr [Tag ''img'' [(''srcset'', Str ''a.png 1x, b.png 2x'')] []]
   \<and> rewrite_srcset sample_env ''https://example.com/''
       (''https://example.com/a.png'' @ [CHR 0x09] @ ''1x'')
     = Inr ''/cachingproxy/proxy?url=https%3A//example.com/a.png%091x''"
  by (simp add: soup_simps sample_simps)

end
